theory Spec2Isabelle
  imports Main
begin

section \<open>Machine model\<close>

subsection \<open>Undefined behaviour and failures as values\<close>

text \<open>
  The C++ sources have no error handling of their own. What can go wrong is undefined
  behaviour (overflow of a signed \<open>int\<close> expression, an access outside a buffer,
  \<open>atoi\<close> on a number that does not fit) or the exception of \<open>std::vector\<close> for a
  size that is too large; the model returns each as an error value, so that a
  result \<open>Inr v\<close> says that the run was free of all of them. Memory is unbounded in
  the model: an allocation of a representable size succeeds.

  The model fixes what the C++ standard leaves to the platform, as the usual targets of
  the sources have it: \<open>int\<close> has 32 bits, \<open>float\<close> and \<open>double\<close> are IEEE 754 binary32
  and binary64, and an expression of type \<open>float\<close> is evaluated in \<open>float\<close>.
\<close>

datatype error = SignedOverflow | OutOfBounds | LengthError | AtoiRange

definition bnd :: "error + 'a \<Rightarrow> ('a \<Rightarrow> error + 'b) \<Rightarrow> error + 'b" where
  "bnd r k = (case r of Inl e \<Rightarrow> Inl e | Inr v \<Rightarrow> k v)"

subsection \<open>The type \<open>int\<close>: 32 bits, signed\<close>

definition INT_MAX :: int where
  "INT_MAX = 2147483647"

definition INT_MIN :: int where
  "INT_MIN = - 2147483648"

definition in_int :: "int \<Rightarrow> bool" where
  "in_int x \<longleftrightarrow> INT_MIN \<le> x \<and> x \<le> INT_MAX"

definition ck :: "int \<Rightarrow> error + int" where
  "ck x = (if in_int x then Inr x else Inl SignedOverflow)"

definition iadd :: "int \<Rightarrow> int \<Rightarrow> error + int" where
  "iadd a b = ck (a + b)"

definition isub :: "int \<Rightarrow> int \<Rightarrow> error + int" where
  "isub a b = ck (a - b)"

definition imul :: "int \<Rightarrow> int \<Rightarrow> error + int" where
  "imul a b = ck (a * b)"

subsection \<open>Binary floating point, round to nearest even\<close>

text \<open>
  \<open>Finite s m e\<close> is the number \<open>(-1)^s * m * 2^e\<close>. A format fixes the precision
  \<open>prec\<close> (bits of the significand \<open>m\<close>) and the range \<open>emin .. emax\<close> of the exponent
  \<open>e\<close> of the integral significand. \<open>float\<close> is binary32, \<open>double\<close> is binary64.
  \<open>fp_round\<close> rounds the exact value \<open>m * 2^e\<close> into a format: the significand is cut
  to \<open>prec\<close> bits, or to fewer at \<open>emin\<close> (subnormal numbers), and a result beyond
  \<open>emax\<close> is an infinity. A sum with a zero operand is the other operand; the sum of
  two zeros is negative only when both are; an exact sum of zero of two nonzero numbers
  is positive. There is one NaN: payloads are not modelled.
\<close>

datatype fp = Finite bool nat int | Infinity bool | NaN

record format =
  prec :: nat
  emin :: int
  emax :: int

definition binary32 :: format where
  "binary32 = \<lparr>prec = 24, emin = - 149, emax = 104\<rparr>"

definition binary64 :: format where
  "binary64 = \<lparr>prec = 53, emin = - 1074, emax = 971\<rparr>"

fun bitlen :: "nat \<Rightarrow> nat" where
  "bitlen n = (if n = 0 then 0 else Suc (bitlen (n div 2)))"

declare bitlen.simps [simp del]

definition mk :: "format \<Rightarrow> bool \<Rightarrow> nat \<Rightarrow> int \<Rightarrow> fp" where
  "mk f s m e = (if emax f < e then Infinity s else Finite s m e)"

text \<open>\<open>n / d\<close> rounded to the nearest integer, a tie to the even one.\<close>

definition rne_div :: "nat \<Rightarrow> nat \<Rightarrow> nat" where
  "rne_div n d =
     (let q = n div d; r = n mod d
      in if d < 2 * r \<or> (2 * r = d \<and> odd q) then q + 1 else q)"

definition fp_round :: "format \<Rightarrow> bool \<Rightarrow> nat \<Rightarrow> int \<Rightarrow> fp" where
  "fp_round f s m e =
     (if m = 0 then Finite s 0 (emin f)
      else
        let sh = max (int (bitlen m) - int (prec f)) (emin f - e) in
        if sh \<le> 0 then mk f s (m * 2 ^ nat (- sh)) (e + sh)
        else
          let q = rne_div m (2 ^ nat sh)
          in if q = 2 ^ prec f then mk f s (2 ^ (prec f - 1)) (e + sh + 1)
             else mk f s q (e + sh))"

text \<open>The values of a format: the significand fits, and is normalised above \<open>emin\<close>.\<close>

definition valid :: "format \<Rightarrow> fp \<Rightarrow> bool" where
  "valid f x =
     (case x of
        Finite s m e \<Rightarrow>
          emin f \<le> e \<and> e \<le> emax f \<and> m < 2 ^ prec f \<and>
          (if emin f < e then 2 ^ (prec f - 1) \<le> m else True)
      | Infinity s \<Rightarrow> True
      | NaN \<Rightarrow> True)"

definition signed :: "bool \<Rightarrow> nat \<Rightarrow> int" where
  "signed s m = (if s then - int m else int m)"

definition fp_add :: "format \<Rightarrow> fp \<Rightarrow> fp \<Rightarrow> fp" where
  "fp_add f x y =
     (case x of
        NaN \<Rightarrow> NaN
      | Infinity s1 \<Rightarrow>
          (case y of
             NaN \<Rightarrow> NaN
           | Infinity s2 \<Rightarrow> if s1 = s2 then Infinity s1 else NaN
           | Finite s2 m2 e2 \<Rightarrow> Infinity s1)
      | Finite s1 m1 e1 \<Rightarrow>
          (case y of
             NaN \<Rightarrow> NaN
           | Infinity s2 \<Rightarrow> Infinity s2
           | Finite s2 m2 e2 \<Rightarrow>
               if m1 = 0 \<and> m2 = 0 then Finite (s1 \<and> s2) 0 (emin f)
               else if m1 = 0 then fp_round f s2 m2 e2
               else if m2 = 0 then fp_round f s1 m1 e1
               else
                 let e = min e1 e2;
                     v = signed s1 m1 * 2 ^ nat (e1 - e) + signed s2 m2 * 2 ^ nat (e2 - e)
                 in if v = 0 then Finite False 0 (emin f)
                    else fp_round f (v < 0) (nat \<bar>v\<bar>) e))"

definition fp_mul :: "format \<Rightarrow> fp \<Rightarrow> fp \<Rightarrow> fp" where
  "fp_mul f x y =
     (case x of
        NaN \<Rightarrow> NaN
      | Infinity s1 \<Rightarrow>
          (case y of
             NaN \<Rightarrow> NaN
           | Infinity s2 \<Rightarrow> Infinity (s1 \<noteq> s2)
           | Finite s2 m2 e2 \<Rightarrow> if m2 = 0 then NaN else Infinity (s1 \<noteq> s2))
      | Finite s1 m1 e1 \<Rightarrow>
          (case y of
             NaN \<Rightarrow> NaN
           | Infinity s2 \<Rightarrow> if m1 = 0 then NaN else Infinity (s1 \<noteq> s2)
           | Finite s2 m2 e2 \<Rightarrow> fp_round f (s1 \<noteq> s2) (m1 * m2) (e1 + e2)))"

text \<open>The operations of the sources: \<open>float\<close> arithmetic and the literals they use.\<close>

definition fadd :: "fp \<Rightarrow> fp \<Rightarrow> fp" where
  "fadd = fp_add binary32"

definition fmul :: "fp \<Rightarrow> fp \<Rightarrow> fp" where
  "fmul = fp_mul binary32"

definition dadd :: "fp \<Rightarrow> fp \<Rightarrow> fp" where
  "dadd = fp_add binary64"

text \<open>The conversion of a \<open>float\<close> to \<open>double\<close>.\<close>

definition to_double :: "fp \<Rightarrow> fp" where
  "to_double x =
     (case x of
        Finite s m e \<Rightarrow> fp_round binary64 s m e
      | Infinity s \<Rightarrow> Infinity s
      | NaN \<Rightarrow> NaN)"

definition d_zero :: fp where
  "d_zero = Finite False 0 (- 1074)"

definition f_zero :: fp where
  "f_zero = Finite False 0 (- 149)"

definition f_one :: fp where
  "f_one = Finite False 8388608 (- 23)"

definition f_quarter :: fp where
  "f_quarter = Finite False 8388608 (- 25)"

definition FLT_MAX :: fp where
  "FLT_MAX = Finite False 16777215 104"

text \<open>
  The numbers \<open>c\<close> whose fourfold sum \<open>((c + c) + c) + c\<close> stays finite when \<open>c\<close> is: an
  infinity, or a finite \<open>float\<close> of magnitude below \<open>2^126\<close> (for a value of binary32 the
  significand is below \<open>2^24\<close>, so this is \<open>e \<le> 102\<close>).
\<close>

definition no_overflow4 :: "fp \<Rightarrow> bool" where
  "no_overflow4 c = (case c of Finite s m e \<Rightarrow> e \<le> 102 | Infinity s \<Rightarrow> True | NaN \<Rightarrow> False)"

subsection \<open>Buffers\<close>

text \<open>
  A buffer of \<open>float\<close> is a list; the kernel reads it and writes it through a pointer
  and an \<open>int\<close> index, with no bounds check in the source: an index outside the buffer
  is undefined behaviour. The input and the output of the kernel are two lists: the
  two buffers do not overlap, as in every call the testbench makes.
\<close>

definition load :: "fp list \<Rightarrow> int \<Rightarrow> error + fp" where
  "load xs k = (if 0 \<le> k \<and> k < int (length xs) then Inr (xs ! nat k) else Inl OutOfBounds)"

definition store :: "fp list \<Rightarrow> int \<Rightarrow> fp \<Rightarrow> error + fp list" where
  "store xs k v =
     (if 0 \<le> k \<and> k < int (length xs) then Inr (xs[nat k := v]) else Inl OutOfBounds)"

section \<open>The kernel: \<open>jacobi2d_hls\<close>\<close>

text \<open>\<open>a * M + b\<close> in \<open>int\<close> arithmetic.\<close>

definition lin :: "int \<Rightarrow> int \<Rightarrow> int \<Rightarrow> error + int" where
  "lin a M b = bnd (imul a M) (\<lambda>t. iadd t b)"

text \<open>
  The test \<open>i == 0 || j == 0 || i == N-1 || j == M-1\<close>, evaluated left to right
  with short circuit.
\<close>

definition is_boundary :: "int \<Rightarrow> int \<Rightarrow> int \<Rightarrow> int \<Rightarrow> error + bool" where
  "is_boundary N M i j =
     (if i = 0 then Inr True
      else if j = 0 then Inr True
      else bnd (isub N 1) (\<lambda>n1.
        if i = n1 then Inr True
        else bnd (isub M 1) (\<lambda>m1. Inr (j = m1))))"

text \<open>
  The body of \<open>Col_Loop\<close>: one cell of the output. The sum
  \<open>up + down + left + right\<close> associates to the left.
\<close>

definition cell_update :: "fp list \<Rightarrow> fp list \<Rightarrow> int \<Rightarrow> int \<Rightarrow> int \<Rightarrow> int \<Rightarrow> error + fp list" where
  "cell_update inp out N M i j =
     bnd (lin i M j) (\<lambda>idx.
     bnd (is_boundary N M i j) (\<lambda>b.
       if b then bnd (load inp idx) (\<lambda>v. store out idx v)
       else
         bnd (isub i 1) (\<lambda>im. bnd (lin im M j) (\<lambda>ku. bnd (load inp ku) (\<lambda>up.
         bnd (iadd i 1) (\<lambda>ip. bnd (lin ip M j) (\<lambda>kd. bnd (load inp kd) (\<lambda>down.
         bnd (isub j 1) (\<lambda>jm. bnd (lin i M jm) (\<lambda>kl. bnd (load inp kl) (\<lambda>left.
         bnd (iadd j 1) (\<lambda>jp. bnd (lin i M jp) (\<lambda>kr. bnd (load inp kr) (\<lambda>right.
         store out idx
           (fmul f_quarter (fadd (fadd (fadd up down) left) right))))))))))))))))"

text \<open>
  The two loops. A counter is incremented only while it is below its bound, an \<open>int\<close>,
  so the increment cannot overflow.
\<close>

function Col_Loop :: "fp list \<Rightarrow> fp list \<Rightarrow> int \<Rightarrow> int \<Rightarrow> int \<Rightarrow> int \<Rightarrow> error + fp list" where
  "Col_Loop inp out N M i j =
     (if j < M then
        (case cell_update inp out N M i j of
           Inl e \<Rightarrow> Inl e
         | Inr out' \<Rightarrow> Col_Loop inp out' N M i (j + 1))
      else Inr out)"
  by pat_completeness auto
termination
  by (relation "measure (\<lambda>(inp, out, N, M, i, j). nat (M - j))") auto

function Row_Loop :: "fp list \<Rightarrow> fp list \<Rightarrow> int \<Rightarrow> int \<Rightarrow> int \<Rightarrow> error + fp list" where
  "Row_Loop inp out N M i =
     (if i < N then
        (case Col_Loop inp out N M i 0 of
           Inl e \<Rightarrow> Inl e
         | Inr out' \<Rightarrow> Row_Loop inp out' N M (i + 1))
      else Inr out)"
  by pat_completeness auto
termination
  by (relation "measure (\<lambda>(inp, out, N, M, i). nat (N - i))") auto

definition jacobi2d_hls :: "fp list \<Rightarrow> fp list \<Rightarrow> int \<Rightarrow> int \<Rightarrow> error + fp list" where
  "jacobi2d_hls inp out N M = Row_Loop inp out N M 0"

section \<open>The testbench\<close>

subsection \<open>Library functions it calls\<close>

text \<open>
  \<open>atoi\<close>: white space, an optional sign, then decimal digits up to the first
  character that is not one; a value outside \<open>int\<close> is undefined behaviour.
\<close>

definition isspace :: "char \<Rightarrow> bool" where
  "isspace c \<longleftrightarrow> c \<in> set [CHR '' '', CHR 0x09, CHR 0x0A, CHR 0x0B, CHR 0x0C, CHR 0x0D]"

definition isdigit :: "char \<Rightarrow> bool" where
  "isdigit c \<longleftrightarrow> (48::nat) \<le> of_char c \<and> of_char c \<le> (57::nat)"

definition digit_val :: "char \<Rightarrow> int" where
  "digit_val c = int (of_char c) - 48"

definition atoi :: "string \<Rightarrow> error + int" where
  "atoi str =
     (let s1 = dropWhile isspace str;
          neg = (s1 \<noteq> [] \<and> hd s1 = CHR ''-'');
          s2 = (if s1 \<noteq> [] \<and> (hd s1 = CHR ''-'' \<or> hd s1 = CHR ''+'') then tl s1 else s1);
          v = foldl (\<lambda>a c. 10 * a + digit_val c) 0 (takeWhile isdigit s2);
          r = (if neg then - v else v)
      in if in_int r then Inr r else Inl AtoiRange)"

text \<open>\<open>printf\<close> with \<open>%d\<close>.\<close>

definition digit_char :: "nat \<Rightarrow> char" where
  "digit_char d = ''0123456789'' ! d"

fun show_nat :: "nat \<Rightarrow> string" where
  "show_nat n = (if n < 10 then [digit_char n] else show_nat (n div 10) @ [digit_char (n mod 10)])"

declare show_nat.simps [simp del]

definition show_int :: "int \<Rightarrow> string" where
  "show_int i = (if i < 0 then CHR ''-'' # show_nat (nat (- i)) else show_nat (nat i))"

text \<open>
  \<open>printf\<close> with \<open>%.6f\<close> of a \<open>double\<close>: the exact value, rounded to six decimals
  (to nearest, ties to even).
\<close>

definition micro :: "nat \<Rightarrow> int \<Rightarrow> nat" where
  "micro m e =
     (if 0 \<le> e then m * 2 ^ nat e * 1000000
      else rne_div (m * 1000000) (2 ^ nat (- e)))"

definition pad6 :: "nat \<Rightarrow> string" where
  "pad6 n = map (\<lambda>p. digit_char (n div 10 ^ p mod 10)) [5, 4, 3, 2, 1, 0]"

definition fmt_f6 :: "fp \<Rightarrow> string" where
  "fmt_f6 x =
     (case x of
        Finite s m e \<Rightarrow>
          (if s then ''-'' else []) @ show_nat (micro m e div 1000000) @ ''.'' @
          pad6 (micro m e mod 1000000)
      | Infinity s \<Rightarrow> (if s then ''-inf'' else ''inf'')
      | NaN \<Rightarrow> ''nan'')"

text \<open>\<open>std::vector<float> a(n)\<close> with \<open>n\<close> of type \<open>int\<close>: \<open>n\<close> zeros, or an exception.\<close>

definition new_vector :: "int \<Rightarrow> error + fp list" where
  "new_vector n = (if n < 0 then Inl LengthError else Inr (replicate (nat n) f_zero))"

subsection \<open>\<open>init_grid\<close>\<close>

function init_loop :: "fp list \<Rightarrow> int \<Rightarrow> int \<Rightarrow> error + fp list" where
  "init_loop a M j =
     (if j < M then
        (case store a j f_one of
           Inl e \<Rightarrow> Inl e
         | Inr a' \<Rightarrow> init_loop a' M (j + 1))
      else Inr a)"
  by pat_completeness auto
termination
  by (relation "measure (\<lambda>(a, M, j). nat (M - j))") auto

definition init_grid :: "fp list \<Rightarrow> int \<Rightarrow> int \<Rightarrow> error + fp list" where
  "init_grid a N M = init_loop (replicate (length a) f_zero) M 0"

subsection \<open>\<open>main\<close>\<close>

definition parse_args :: "string list \<Rightarrow> error + int \<times> int \<times> int" where
  "parse_args argv =
     (let argc = int (length argv) in
      bnd (if 3 \<le> argc
           then bnd (atoi (argv ! 1)) (\<lambda>n. bnd (atoi (argv ! 2)) (\<lambda>m. Inr (n, m)))
           else Inr (1024, 1024)) (\<lambda>(N, M).
      bnd (if 4 \<le> argc then atoi (argv ! 3) else Inr 10) (\<lambda>iters.
      Inr (N, M, iters))))"

text \<open>
  The loop over \<open>t\<close>: one call of the kernel from \<open>a\<close> into \<open>b\<close>, then \<open>std::swap(a, b)\<close>.
\<close>

function iter_loop ::
  "fp list \<Rightarrow> fp list \<Rightarrow> int \<Rightarrow> int \<Rightarrow> int \<Rightarrow> int \<Rightarrow> error + fp list \<times> fp list" where
  "iter_loop a b N M iters t =
     (if t < iters then
        (case jacobi2d_hls a b N M of
           Inl e \<Rightarrow> Inl e
         | Inr b' \<Rightarrow> iter_loop b' a N M iters (t + 1))
      else Inr (a, b))"
  by pat_completeness auto
termination
  by (relation "measure (\<lambda>(a, b, N, M, iters, t). nat (iters - t))") auto

text \<open>
  The checksum loop; its bound \<open>N*M\<close> is computed at every test. \<open>acc\<close> is the
  variable \<open>sum\<close> of the source.
\<close>

function sum_loop :: "fp list \<Rightarrow> int \<Rightarrow> int \<Rightarrow> fp \<Rightarrow> int \<Rightarrow> error + fp" where
  "sum_loop a N M acc i =
     (case imul N M of
        Inl e \<Rightarrow> Inl e
      | Inr nm \<Rightarrow>
          if i < nm then
            (case load a i of
               Inl e \<Rightarrow> Inl e
             | Inr x \<Rightarrow> sum_loop a N M (dadd acc (to_double x)) (i + 1))
          else Inr acc)"
  by pat_completeness auto
termination
  by (relation "measure (\<lambda>(a, N, M, acc, i). nat (N * M - i))")
    (auto simp add: imul_def ck_def split: if_splits)

definition report :: "int \<Rightarrow> int \<Rightarrow> int \<Rightarrow> fp \<Rightarrow> string" where
  "report N M iters acc =
     ''HLS csim done: N='' @ show_int N @ '' M='' @ show_int M @ '' iters='' @ show_int iters @
     '' checksum='' @ fmt_f6 acc @ [CHR 0x0A]"

text \<open>
  The body of \<open>main\<close> after the arguments are read; the result is what it prints.
  The vector \<open>b\<close> is allocated and then assigned a copy of \<open>a\<close>.
\<close>

definition run :: "int \<Rightarrow> int \<Rightarrow> int \<Rightarrow> error + string" where
  "run N M iters =
     bnd (imul N M) (\<lambda>nm.
     bnd (new_vector nm) (\<lambda>a0.
     bnd (new_vector nm) (\<lambda>b0.
     bnd (init_grid a0 N M) (\<lambda>a.
     bnd (iter_loop a a N M iters 0) (\<lambda>(a', b').
     bnd (sum_loop a' N M d_zero 0) (\<lambda>acc.
     Inr (report N M iters acc)))))))"

definition main :: "string list \<Rightarrow> error + string" where
  "main argv = bnd (parse_args argv) (\<lambda>(N, M, iters). run N M iters)"

section \<open>The specification's stencil update\<close>

text \<open>
  Cell \<open>(i, j)\<close> of the grid is element \<open>i * M + j\<close> of the buffer. A border cell keeps
  its value; an interior cell becomes a quarter of the sum of its four neighbours.
\<close>

definition stencil_cell :: "fp list \<Rightarrow> int \<Rightarrow> int \<Rightarrow> int \<Rightarrow> int \<Rightarrow> fp" where
  "stencil_cell g N M i j =
     (if i = 0 \<or> i = N - 1 \<or> j = 0 \<or> j = M - 1 then g ! nat (i * M + j)
      else fmul f_quarter
             (fadd (fadd (fadd (g ! nat ((i - 1) * M + j)) (g ! nat ((i + 1) * M + j)))
                         (g ! nat (i * M + (j - 1))))
                   (g ! nat (i * M + (j + 1)))))"

definition stencil_at :: "fp list \<Rightarrow> int \<Rightarrow> int \<Rightarrow> nat \<Rightarrow> fp" where
  "stencil_at g N M k = stencil_cell g N M (int k div M) (int k mod M)"

definition stencil :: "int \<Rightarrow> int \<Rightarrow> fp list \<Rightarrow> fp list" where
  "stencil N M g = map (stencil_at g N M) [0..<nat (N * M)]"

text \<open>The grid of the driver: row 0 is 1.0, the rest 0.0; and the grid after \<open>T\<close> updates.\<close>

definition initial_grid :: "int \<Rightarrow> int \<Rightarrow> fp list" where
  "initial_grid N M = replicate (nat M) f_one @ replicate (nat ((N - 1) * M)) f_zero"

definition grid_after :: "int \<Rightarrow> int \<Rightarrow> int \<Rightarrow> fp list" where
  "grid_after N M T = (stencil N M ^^ nat T) (initial_grid N M)"

text \<open>The sum of all cells, accumulated in \<open>double\<close> from the first cell to the last.\<close>

definition checksum :: "fp list \<Rightarrow> fp" where
  "checksum g = foldl (\<lambda>s x. dadd s (to_double x)) d_zero g"

declare Col_Loop.simps [simp del] Row_Loop.simps [simp del] init_loop.simps [simp del]
  iter_loop.simps [simp del] sum_loop.simps [simp del]

section \<open>The kernel computes the stencil update\<close>

lemma bnd_Inr [simp]: "bnd (Inr v) k = k v"
  by (simp add: bnd_def)

lemma bnd_Inl [simp]: "bnd (Inl e) k = Inl e"
  by (simp add: bnd_def)

lemma ck_in [simp]: "in_int x \<Longrightarrow> ck x = Inr x"
  by (simp add: ck_def)

lemma ck_out [simp]: "\<not> in_int x \<Longrightarrow> ck x = Inl SignedOverflow"
  by (simp add: ck_def)

lemma in_int_iff: "in_int x \<longleftrightarrow> - 2147483648 \<le> x \<and> x \<le> 2147483647"
  by (simp add: in_int_def INT_MIN_def INT_MAX_def)

lemma cell_index_bounds:
  fixes a b N M :: int
  assumes "0 \<le> a" "a < N" "0 \<le> b" "b < M"
  shows "0 \<le> a * M" "a * M + b < N * M" "a * M \<le> a * M + b" "0 \<le> a * M + b"
proof -
  have M: "0 \<le> M" using assms by linarith
  show "0 \<le> a * M" using assms M by simp
  have "a + 1 \<le> N" using assms by simp
  then have "(a + 1) * M \<le> N * M" using M by (rule mult_right_mono)
  then show "a * M + b < N * M" using assms by (simp add: algebra_simps)
  show "a * M \<le> a * M + b" using assms by simp
  show "0 \<le> a * M + b" using assms M by simp
qed

lemma lin_ok:
  assumes "0 \<le> a" "a < N" "0 \<le> b" "b < M" "N * M \<le> 2147483648"
  shows "lin a M b = Inr (a * M + b)"
proof -
  note b = cell_index_bounds [OF assms(1-4)]
  have "in_int (a * M)" using b assms(5) by (simp add: in_int_iff)
  moreover have "in_int (a * M + b)" using b assms(5) by (simp add: in_int_iff)
  ultimately show ?thesis by (simp add: lin_def imul_def iadd_def)
qed

lemma dims_in_int:
  fixes N M :: int
  assumes "0 < N" "0 < M" "N * M \<le> 2147483648"
  shows "N \<le> 2147483648" "M \<le> 2147483648"
proof -
  have "N * 1 \<le> N * M" using assms by (intro mult_left_mono) simp_all
  then have "N \<le> N * M" by simp
  then show "N \<le> 2147483648" using assms(3) by linarith
  have "1 * M \<le> N * M" using assms by (intro mult_right_mono) simp_all
  then have "M \<le> N * M" by simp
  then show "M \<le> 2147483648" using assms(3) by linarith
qed

lemma is_boundary_ok:
  assumes "0 \<le> i" "i < N" "0 \<le> j" "j < M" "N * M \<le> 2147483648"
  shows "is_boundary N M i j = Inr (i = 0 \<or> i = N - 1 \<or> j = 0 \<or> j = M - 1)"
proof -
  have "0 < N" "0 < M" using assms by simp_all
  from dims_in_int [OF this assms(5)] have "in_int (N - 1)" "in_int (M - 1)"
    using \<open>0 < N\<close> \<open>0 < M\<close> by (simp_all add: in_int_iff)
  then show ?thesis by (auto simp add: is_boundary_def isub_def)
qed

lemma cell_update_ok:
  assumes "0 \<le> i" "i < N" "0 \<le> j" "j < M" "N * M \<le> 2147483648"
    and "N * M \<le> int (length inp)" "N * M \<le> int (length out)"
  shows "cell_update inp out N M i j = Inr (out[nat (i * M + j) := stencil_cell inp N M i j])"
proof (cases "i = 0 \<or> i = N - 1 \<or> j = 0 \<or> j = M - 1")
  case True
  note b = cell_index_bounds [OF assms(1-4)]
  have "load inp (i * M + j) = Inr (inp ! nat (i * M + j))"
    using b assms(6) by (simp add: load_def)
  moreover have "store out (i * M + j) v = Inr (out[nat (i * M + j) := v])" for v
    using b assms(7) by (simp add: store_def)
  ultimately show ?thesis
    using True by (simp add: cell_update_def lin_ok [OF assms(1-5)] is_boundary_ok [OF assms(1-5)]
        stencil_cell_def)
next
  case False
  then have i: "0 \<le> i - 1" "i - 1 < N" "0 \<le> i + 1" "i + 1 < N"
    and j: "0 \<le> j - 1" "j - 1 < M" "0 \<le> j + 1" "j + 1 < M"
    using assms(1-4) by simp_all
  have "0 < N" "0 < M" using assms by simp_all
  from dims_in_int [OF this assms(5)]
  have ii: "in_int (i - 1)" "in_int (i + 1)" "in_int (j - 1)" "in_int (j + 1)"
    using i j by (simp_all add: in_int_iff)
  have ld: "0 \<le> a \<Longrightarrow> a < N \<Longrightarrow> 0 \<le> b \<Longrightarrow> b < M \<Longrightarrow>
      load inp (a * M + b) = Inr (inp ! nat (a * M + b))" for a b
    using cell_index_bounds [of a N b M] assms(6) by (simp add: load_def)
  have st: "store out (i * M + j) v = Inr (out[nat (i * M + j) := v])" for v
    using cell_index_bounds [OF assms(1-4)] assms(7) by (simp add: store_def)
  show ?thesis
    using False
    by (simp add: cell_update_def lin_ok [OF assms(1-5)] is_boundary_ok [OF assms(1-5)]
        stencil_cell_def isub_def iadd_def ii
        lin_ok [OF i(1,2) assms(3,4,5)] lin_ok [OF i(3,4) assms(3,4,5)]
        lin_ok [OF assms(1,2) j(1,2) assms(5)] lin_ok [OF assms(1,2) j(3,4) assms(5)]
        ld [OF i(1,2) assms(3,4)] ld [OF i(3,4) assms(3,4)]
        ld [OF assms(1,2) j(1,2)] ld [OF assms(1,2) j(3,4)] st)
qed

lemma stencil_at_cell:
  assumes "0 \<le> j" "j < M" "0 \<le> i"
  shows "stencil_at g N M (nat (i * M + j)) = stencil_cell g N M i j"
proof -
  have "0 \<le> i * M + j" using assms by simp
  moreover have "(j + i * M) div M = i" "(j + i * M) mod M = j"
    using assms by (simp_all add: div_pos_pos_trivial)
  ultimately show ?thesis by (simp add: stencil_at_def add.commute)
qed

lemma Col_Loop_ok:
  assumes "0 \<le> i" "i < N" "0 \<le> j" "j \<le> M" "N * M \<le> 2147483648"
    and "N * M \<le> int (length inp)" "N * M \<le> int (length out)"
  shows "\<exists>out'. Col_Loop inp out N M i j = Inr out' \<and> length out' = length out \<and>
           (\<forall>k. out' ! k = (if i * M + j \<le> int k \<and> int k < i * M + M
                            then stencil_at inp N M k else out ! k))"
  using assms
proof (induction inp out N M i j rule: Col_Loop.induct)
  case (1 inp out N M i j)
  show ?case
  proof (cases "j < M")
    case False
    then show ?thesis by (subst Col_Loop.simps) auto
  next
    case True
    let ?k0 = "nat (i * M + j)"
    let ?out1 = "out[?k0 := stencil_cell inp N M i j]"
    have cu: "cell_update inp out N M i j = Inr ?out1"
      using "1.prems" True by (intro cell_update_ok) simp_all
    have "\<exists>out'. Col_Loop inp ?out1 N M i (j + 1) = Inr out' \<and> length out' = length ?out1 \<and>
           (\<forall>k. out' ! k = (if i * M + (j + 1) \<le> int k \<and> int k < i * M + M
                            then stencil_at inp N M k else ?out1 ! k))"
      using "1.prems" True by (intro "1.IH" [OF True cu]) simp_all
    then obtain out' where o: "Col_Loop inp ?out1 N M i (j + 1) = Inr out'"
      "length out' = length out"
      "\<And>k. out' ! k = (if i * M + (j + 1) \<le> int k \<and> int k < i * M + M
                            then stencil_at inp N M k else ?out1 ! k)"
      by auto
    have b: "0 \<le> i * M + j" "i * M + j < N * M"
      using cell_index_bounds [of i N j M] "1.prems" True by simp_all
    have k0: "?k0 < length out" "int ?k0 = i * M + j"
      using b "1.prems"(7) by (simp_all add: nat_less_iff)
    have sa: "stencil_at inp N M ?k0 = stencil_cell inp N M i j"
      using "1.prems" True by (intro stencil_at_cell) simp_all
    have "out' ! k = (if i * M + j \<le> int k \<and> int k < i * M + M
                            then stencil_at inp N M k else out ! k)" for k
    proof (cases "k = ?k0")
      case True
      then show ?thesis using o(3) [of k] k0 sa \<open>j < M\<close> by simp
    next
      case False
      then have "int k \<noteq> i * M + j" using k0(2) by linarith
      then show ?thesis using o(3) [of k] False by auto
    qed
    then show ?thesis
      using o(1,2) True cu by (subst Col_Loop.simps) simp
  qed
qed

lemma Row_Loop_ok:
  assumes "0 \<le> i" "i \<le> N" "0 < M" "N * M \<le> 2147483648"
    and "N * M \<le> int (length inp)" "N * M \<le> int (length out)"
  shows "\<exists>out'. Row_Loop inp out N M i = Inr out' \<and> length out' = length out \<and>
           (\<forall>k. out' ! k = (if i * M \<le> int k \<and> int k < N * M
                            then stencil_at inp N M k else out ! k))"
  using assms
proof (induction inp out N M i rule: Row_Loop.induct)
  case (1 inp out N M i)
  show ?case
  proof (cases "i < N")
    case False
    then have "i = N" using "1.prems" by simp
    then show ?thesis by (subst Row_Loop.simps) auto
  next
    case True
    have "\<exists>out1. Col_Loop inp out N M i 0 = Inr out1 \<and> length out1 = length out \<and>
           (\<forall>k. out1 ! k = (if i * M + 0 \<le> int k \<and> int k < i * M + M
                            then stencil_at inp N M k else out ! k))"
      using "1.prems" True by (intro Col_Loop_ok) simp_all
    then obtain out1 where c: "Col_Loop inp out N M i 0 = Inr out1" "length out1 = length out"
      "\<And>k. out1 ! k = (if i * M \<le> int k \<and> int k < i * M + M
                            then stencil_at inp N M k else out ! k)"
      by auto
    have "\<exists>out'. Row_Loop inp out1 N M (i + 1) = Inr out' \<and> length out' = length out1 \<and>
           (\<forall>k. out' ! k = (if (i + 1) * M \<le> int k \<and> int k < N * M
                            then stencil_at inp N M k else out1 ! k))"
      using "1.prems" True c(2) by (intro "1.IH" [OF True c(1)]) simp_all
    then obtain out' where r: "Row_Loop inp out1 N M (i + 1) = Inr out'"
      "length out' = length out"
      "\<And>k. out' ! k = (if (i + 1) * M \<le> int k \<and> int k < N * M
                            then stencil_at inp N M k else out1 ! k)"
      using c(2) by auto
    have le: "(i + 1) * M \<le> N * M"
      using True "1.prems" by (intro mult_right_mono) simp_all
    have "out' ! k = (if i * M \<le> int k \<and> int k < N * M
                            then stencil_at inp N M k else out ! k)" for k
      using r(3) [of k] c(3) [of k] le \<open>0 < M\<close> by (auto simp add: algebra_simps)
    then show ?thesis
      using r(1,2) c(1) True by (subst Row_Loop.simps) simp
  qed
qed

lemma jacobi2d_hls_ok:
  assumes "1 \<le> N" "1 \<le> M" "N * M \<le> 2147483648"
    and "length inp = nat (N * M)" "length out = nat (N * M)"
  shows "jacobi2d_hls inp out N M = Inr (stencil N M inp)"
proof -
  have "0 \<le> N * M" using assms by simp
  then have "\<exists>out'. Row_Loop inp out N M 0 = Inr out' \<and> length out' = length out \<and>
           (\<forall>k. out' ! k = (if 0 * M \<le> int k \<and> int k < N * M
                            then stencil_at inp N M k else out ! k))"
    using assms by (intro Row_Loop_ok) simp_all
  then obtain out' where r: "Row_Loop inp out N M 0 = Inr out'" "length out' = length out"
    "\<And>k. out' ! k = (if int k < N * M then stencil_at inp N M k else out ! k)"
    by auto
  have "out' = stencil N M inp"
  proof (rule nth_equalityI)
    show "length out' = length (stencil N M inp)"
      using r(2) assms by (simp add: stencil_def)
    fix k assume "k < length out'"
    then have "int k < N * M" using r(2) assms by simp
    then show "out' ! k = stencil N M inp ! k"
      using r(3) [of k] \<open>k < length out'\<close> r(2) assms by (simp add: stencil_def)
  qed
  then show ?thesis using r(1) by (simp add: jacobi2d_hls_def)
qed

lemma stencil_length [simp]: "length (stencil N M g) = nat (N * M)"
  by (simp add: stencil_def)

lemma stencil_nth:
  assumes "0 \<le> i" "i < N" "0 \<le> j" "j < M"
  shows "stencil N M g ! nat (i * M + j) = stencil_cell g N M i j"
proof -
  have b: "0 \<le> i * M + j" "i * M + j < N * M"
    using cell_index_bounds [OF assms] by simp_all
  then have "nat (i * M + j) < nat (N * M)" by simp
  then show ?thesis
    using assms by (simp add: stencil_def stencil_at_cell)
qed

lemma stencil_all_border:
  assumes "1 \<le> N" "1 \<le> M" "N \<le> 2 \<or> M \<le> 2" "length g = nat (N * M)"
  shows "stencil N M g = g"
proof (rule nth_equalityI)
  show "length (stencil N M g) = length g" using assms by simp
  fix k assume "k < length (stencil N M g)"
  then have k: "int k < N * M" using assms by simp
  let ?i = "int k div M" and ?j = "int k mod M"
  have j: "0 \<le> ?j" "?j < M" using assms by simp_all
  have i: "0 \<le> ?i" using assms by (simp add: pos_imp_zdiv_nonneg_iff)
  have "?i * M + ?j = int k" by simp
  have "?i < N"
  proof (rule ccontr)
    assume "\<not> ?i < N"
    then have "N * M \<le> ?i * M" using assms(2) by (intro mult_right_mono) simp_all
    then show False using k j \<open>?i * M + ?j = int k\<close> by linarith
  qed
  have "?i = 0 \<or> ?i = N - 1 \<or> ?j = 0 \<or> ?j = M - 1"
    using assms(3) i j \<open>?i < N\<close> by linarith
  then show "stencil N M g ! k = g ! k"
    using \<open>k < length (stencil N M g)\<close> \<open>?i * M + ?j = int k\<close>
    by (simp add: stencil_def stencil_at_def stencil_cell_def)
qed

lemma Col_Loop_no_columns: "M \<le> 0 \<Longrightarrow> 0 \<le> j \<Longrightarrow> Col_Loop inp out N M i j = Inr out"
  by (subst Col_Loop.simps) simp

lemma Row_Loop_no_columns: "M \<le> 0 \<Longrightarrow> Row_Loop inp out N M i = Inr out"
proof (induction inp out N M i rule: Row_Loop.induct)
  case (1 inp out N M i)
  show ?case
  proof (cases "i < N")
    case True
    have c: "Col_Loop inp out N M i 0 = Inr out"
      using "1.prems" by (simp add: Col_Loop_no_columns)
    from "1.IH" [OF True c "1.prems"] True c show ?thesis
      by (subst Row_Loop.simps) simp
  next
    case False
    then show ?thesis by (subst Row_Loop.simps) simp
  qed
qed

section \<open>Evaluating floating-point operations on numerals\<close>

lemma bitlen_0 [simp]: "bitlen 0 = 0"
  by (simp add: bitlen.simps)

lemma bitlen_double: "0 < n \<Longrightarrow> bitlen (2 * n) = Suc (bitlen n)"
  by (subst bitlen.simps) simp

lemma bitlen_double1: "bitlen (2 * n + 1) = Suc (bitlen n)"
  by (subst bitlen.simps) simp

lemma bitlen_One [simp]: "bitlen 1 = 1" "bitlen (Suc 0) = 1"
  using bitlen_double1 [of 0] by simp_all

lemma bitlen_Bit0 [simp]: "bitlen (numeral (Num.Bit0 k)) = Suc (bitlen (numeral k))"
  using bitlen_double [of "numeral k"] by (simp add: numeral_Bit0 mult_2)

lemma bitlen_Bit1 [simp]: "bitlen (numeral (Num.Bit1 k)) = Suc (bitlen (numeral k))"
  using bitlen_double1 [of "numeral k"] by (simp add: numeral_Bit1 mult_2)

lemmas fp_eval = fadd_def fmul_def dadd_def to_double_def fp_add_def fp_mul_def fp_round_def
  rne_div_def mk_def binary32_def binary64_def signed_def Let_def f_one_def f_zero_def f_quarter_def
  FLT_MAX_def d_zero_def

lemma float_eval:
  "fadd f_one f_zero = f_one" "fadd f_zero f_zero = f_zero" "fmul f_quarter f_one = f_quarter"
  "fmul f_quarter f_zero = f_zero" "fadd f_zero f_one = f_one" "fadd f_one f_one = Finite False 8388608 (- 22)"
  by (simp_all add: fp_eval)

lemma quarter_of_ones: "fmul f_quarter (fadd (fadd (fadd f_one f_one) f_one) f_one) = f_one"
  by (simp add: fp_eval)

text \<open>
  Rounding at work: a tie goes to the even significand, upwards with a carry into the
  next binade or downwards; a subnormal product; overflow.
\<close>

lemma rounding_examples:
  "fadd (Finite False 16777215 (- 23)) (Finite False 8388608 (- 47)) = Finite False 8388608 (- 22)"
  "fadd (Finite False 16777214 (- 23)) (Finite False 8388608 (- 47)) = Finite False 16777214 (- 23)"
  "fadd f_one (Finite True 8388609 (- 23)) = Finite True 8388608 (- 46)"
  "fmul (Finite False 3 (- 149)) (Finite False 8388608 (- 24)) = Finite False 2 (- 149)"
  "fmul (Finite False 1 (- 149)) f_quarter = f_zero"
  "fadd FLT_MAX FLT_MAX = Infinity False"
  "fadd (Infinity False) (Infinity True) = NaN"
  by (simp_all add: fp_eval)

section \<open>Index arithmetic that leaves \<open>int\<close>\<close>

text \<open>
  The kernel computes every index in \<open>int\<close>. For a grid of more than \<open>2^31\<close> cells
  an index expression overflows; the two lemmas below reach the first such cell when it
  is cell \<open>(1, 1)\<close>. Row 0 and cell \<open>(1, 0)\<close> need only that a row fits.
\<close>

lemma Col_Loop_row0:
  assumes "0 \<le> j" "j \<le> M" "M \<le> 2147483647"
    and "M \<le> int (length inp)" "M \<le> int (length out)"
  shows "\<exists>out'. Col_Loop inp out N M 0 j = Inr out' \<and> length out' = length out"
  using assms
proof (induction inp out N M "0::int" j rule: Col_Loop.induct)
  case (1 inp out N M j)
  show ?case
  proof (cases "j < M")
    case False
    then show ?thesis by (subst Col_Loop.simps) simp
  next
    case True
    have "in_int j" using True "1.prems" by (simp add: in_int_iff)
    then have cu: "cell_update inp out N M 0 j = Inr (out[nat j := inp ! nat j])"
      using True "1.prems"
      by (simp add: cell_update_def lin_def imul_def iadd_def is_boundary_def load_def store_def
          in_int_iff)
    have "\<exists>out'. Col_Loop inp (out[nat j := inp ! nat j]) N M 0 (j + 1) = Inr out' \<and>
            length out' = length (out[nat j := inp ! nat j])"
      using True "1.prems" by (intro "1.hyps" [OF True cu]) simp_all
    then show ?thesis
      using True cu by (subst Col_Loop.simps) simp
  qed
qed

lemma kernel_fails_at_1_1:
  assumes "2 \<le> N" "2 \<le> M" "M \<le> 2147483647"
    and "M < int (length inp)" "M < int (length out)"
    and "\<And>out'. length out' = length out \<Longrightarrow> cell_update inp out' N M 1 1 = Inl e"
  shows "jacobi2d_hls inp out N M = Inl e"
proof -
  obtain out1 where r0: "Col_Loop inp out N M 0 0 = Inr out1" "length out1 = length out"
    using Col_Loop_row0 [of 0 M inp out N] assms by auto
  let ?out2 = "out1[nat M := inp ! nat M]"
  have c10: "cell_update inp out1 N M 1 0 = Inr ?out2"
    using assms r0(2)
    by (simp add: cell_update_def lin_def imul_def iadd_def is_boundary_def load_def store_def
        in_int_iff)
  have "cell_update inp ?out2 N M 1 1 = Inl e"
    using r0(2) by (intro assms(6)) simp
  then have "Col_Loop inp ?out2 N M 1 1 = Inl e"
    using assms by (subst Col_Loop.simps) simp
  then have "Col_Loop inp out1 N M 1 0 = Inl e"
    using assms c10 by (subst Col_Loop.simps) simp
  then have "Row_Loop inp out1 N M 1 = Inl e"
    using assms by (subst Row_Loop.simps) simp
  then have "Row_Loop inp out N M 0 = Inl e"
    using assms r0 by (subst Row_Loop.simps) simp
  then show ?thesis by (simp add: jacobi2d_hls_def)
qed

text \<open>
  The bound is sharp: on a grid of more than \<open>2^31\<close> cells the index \<open>i*M + j\<close> of
  the last cell does not fit \<open>int\<close>, and the kernel fails, there or before.
\<close>

lemma Col_Loop_fails:
  assumes "\<And>out. \<exists>e. cell_update inp out N M i j = Inl e" "j0 \<le> j" "j < M"
  shows "\<exists>e. Col_Loop inp out N M i j0 = Inl e"
  using assms
proof (induction inp out N M i j0 rule: Col_Loop.induct)
  case (1 inp out N M i j0)
  have lt: "j0 < M" using "1.prems" by simp
  show ?case
  proof (cases "cell_update inp out N M i j0")
    case (Inl e)
    then show ?thesis using lt by (subst Col_Loop.simps) simp
  next
    case (Inr out')
    then have "j0 \<noteq> j" using "1.prems"(1) [of out] by auto
    then have "j0 + 1 \<le> j" using "1.prems"(2) by simp
    from "1.IH" [OF lt Inr "1.prems"(1) this "1.prems"(3)]
    show ?thesis using lt Inr by (subst Col_Loop.simps) simp
  qed
qed

lemma Row_Loop_fails:
  assumes "\<And>out. \<exists>e. Col_Loop inp out N M i 0 = Inl e" "i0 \<le> i" "i < N"
  shows "\<exists>e. Row_Loop inp out N M i0 = Inl e"
  using assms
proof (induction inp out N M i0 rule: Row_Loop.induct)
  case (1 inp out N M i0)
  have lt: "i0 < N" using "1.prems" by simp
  show ?case
  proof (cases "Col_Loop inp out N M i0 0")
    case (Inl e)
    then show ?thesis using lt by (subst Row_Loop.simps) simp
  next
    case (Inr out')
    then have "i0 \<noteq> i" using "1.prems"(1) [of out] by auto
    then have "i0 + 1 \<le> i" using "1.prems"(2) by simp
    from "1.IH" [OF lt Inr "1.prems"(1) this "1.prems"(3)]
    show ?thesis using lt Inr by (subst Row_Loop.simps) simp
  qed
qed

lemma kernel_fails_beyond:
  assumes "1 \<le> N" "1 \<le> M" "2147483648 < N * M"
  shows "\<exists>e. jacobi2d_hls inp out N M = Inl e"
proof -
  have "(N - 1) * M + (M - 1) = N * M - 1" by (simp add: algebra_simps)
  then have "\<not> in_int ((N - 1) * M + (M - 1))" using assms(3) by (simp add: in_int_iff)
  then have "lin (N - 1) M (M - 1) = Inl SignedOverflow"
    by (cases "in_int ((N - 1) * M)") (simp_all add: lin_def imul_def iadd_def)
  then have "\<exists>e. cell_update inp out' N M (N - 1) (M - 1) = Inl e" for out'
    by (simp add: cell_update_def)
  then have "\<exists>e. Col_Loop inp out' N M (N - 1) 0 = Inl e" for out'
    using assms(2) by (intro Col_Loop_fails [where j = "M - 1"]) simp_all
  then have "\<exists>e. Row_Loop inp out N M 0 = Inl e"
    using assms(1) by (intro Row_Loop_fails [where i = "N - 1"]) simp_all
  then show ?thesis by (simp add: jacobi2d_hls_def)
qed

section \<open>Properties of the kernel\<close>

text \<open>
  C1, as amended. For a grid of \<open>N * M\<close> cells with \<open>N, M \<ge> 1\<close> and \<open>N * M \<le> 2^31\<close>
  (every index the kernel computes then fits \<open>int\<close>), one call of the kernel
  returns a grid whose interior cell \<open>(i, j)\<close> is
  \<open>0.25f * (((in[i-1,j] + in[i+1,j]) + in[i,j-1]) + in[i,j+1])\<close> in \<open>float\<close>
  arithmetic, all four neighbours read from the input grid.
\<close>

theorem interior_average:
  assumes "1 \<le> N" "1 \<le> M" "N * M \<le> 2147483648"
    and "length inp = nat (N * M)" "length out = nat (N * M)"
    and "0 < i" "i < N - 1" "0 < j" "j < M - 1"
  shows "\<exists>out'. jacobi2d_hls inp out N M = Inr out' \<and>
           out' ! nat (i * M + j) =
             fmul f_quarter
               (fadd (fadd (fadd (inp ! nat ((i - 1) * M + j)) (inp ! nat ((i + 1) * M + j)))
                           (inp ! nat (i * M + (j - 1))))
                     (inp ! nat (i * M + (j + 1))))"
proof -
  have "stencil N M inp ! nat (i * M + j) = stencil_cell inp N M i j"
    using assms by (intro stencil_nth) simp_all
  then show ?thesis
    using assms by (simp add: jacobi2d_hls_ok stencil_cell_def)
qed

theorem interior_average_witness:
  "\<exists>out'. jacobi2d_hls
            [f_zero, f_one, f_zero,
             f_one, f_zero, f_one,
             f_zero, f_one, f_zero] (replicate 9 f_zero) 3 3 = Inr out' \<and>
          out' ! 4 = f_one"
  using interior_average [of 3 3 "[f_zero, f_one, f_zero, f_one, f_zero, f_one, f_zero, f_one, f_zero]"
      "replicate 9 f_zero" 1 1]
  by (simp add: quarter_of_ones)

text \<open>
  C1 as stated fails: on a grid of 3 rows of \<open>2^30\<close> cells the index of the lower
  neighbour of cell \<open>(1, 1)\<close>, \<open>(i+1)*M + j\<close>, overflows \<open>int\<close>.
\<close>

theorem interior_average_overflow:
  "jacobi2d_hls (replicate 3221225472 f_zero) (replicate 3221225472 f_zero) 3 1073741824 =
     Inl SignedOverflow"
  by (rule kernel_fails_at_1_1)
    (simp_all add: cell_update_def lin_def imul_def iadd_def isub_def is_boundary_def load_def
      in_int_iff)

text \<open>
  C2, as amended. For a grid of \<open>N * M\<close> cells with \<open>N, M \<ge> 1\<close> and \<open>N * M \<le> 2^31\<close>,
  one call of the kernel returns a grid whose border cells (row 0, row \<open>N-1\<close>,
  column 0, column \<open>M-1\<close>) are those of the input.
\<close>

theorem border_copy:
  assumes "1 \<le> N" "1 \<le> M" "N * M \<le> 2147483648"
    and "length inp = nat (N * M)" "length out = nat (N * M)"
    and "0 \<le> i" "i < N" "0 \<le> j" "j < M"
    and "i = 0 \<or> i = N - 1 \<or> j = 0 \<or> j = M - 1"
  shows "\<exists>out'. jacobi2d_hls inp out N M = Inr out' \<and>
           out' ! nat (i * M + j) = inp ! nat (i * M + j)"
proof -
  have "stencil N M inp ! nat (i * M + j) = stencil_cell inp N M i j"
    using assms by (intro stencil_nth) simp_all
  then show ?thesis
    using assms by (simp add: jacobi2d_hls_ok stencil_cell_def)
qed

theorem border_copy_witness:
  "\<exists>out'. jacobi2d_hls
            [f_zero, f_one, f_zero,
             f_one, f_zero, f_one,
             f_zero, f_one, f_zero] (replicate 9 f_zero) 3 3 = Inr out' \<and>
          out' ! 7 = f_one"
  using border_copy [of 3 3 "[f_zero, f_one, f_zero, f_one, f_zero, f_one, f_zero, f_one, f_zero]"
      "replicate 9 f_zero" 2 1]
  by simp

text \<open>
  C2 as stated fails: on a grid of 4 rows of \<open>2^30\<close> cells the call overflows \<open>int\<close>
  at cell \<open>(1, 1)\<close> and returns no grid, so no border cell of an output equals its input.
\<close>

theorem border_copy_overflow:
  "jacobi2d_hls (replicate 4294967296 f_one) (replicate 4294967296 f_zero) 4 1073741824 =
     Inl SignedOverflow"
  by (rule kernel_fails_at_1_1)
    (simp_all add: cell_update_def lin_def imul_def iadd_def isub_def is_boundary_def load_def
      in_int_iff)

text \<open>
  C4, as amended. For \<open>N, M \<ge> 1\<close> with \<open>N \<le> 2\<close> or \<open>M \<le> 2\<close> and \<open>N * M \<le> 2^31\<close>,
  one call of the kernel returns the input grid, cell for cell.
\<close>

theorem degenerate_identity:
  assumes "1 \<le> N" "1 \<le> M" "N \<le> 2 \<or> M \<le> 2" "N * M \<le> 2147483648"
    and "length inp = nat (N * M)" "length out = nat (N * M)"
  shows "jacobi2d_hls inp out N M = Inr inp"
  using assms by (simp add: jacobi2d_hls_ok stencil_all_border)

theorem degenerate_identity_witness:
  "jacobi2d_hls [f_one, f_quarter, f_zero, f_quarter, f_one, f_quarter] (replicate 6 f_zero) 2 3 =
     Inr [f_one, f_quarter, f_zero, f_quarter, f_one, f_quarter]"
  using degenerate_identity [of 2 3 "[f_one, f_quarter, f_zero, f_quarter, f_one, f_quarter]"
      "replicate 6 f_zero"]
  by simp

text \<open>
  C4 as stated fails: a grid of 2 rows of \<open>2^31 - 1\<close> cells has only border cells, and
  the index \<open>i*M + j\<close> of cell \<open>(1, 1)\<close> is \<open>2^31\<close>.
\<close>

theorem degenerate_identity_overflow:
  "jacobi2d_hls (replicate 4294967294 f_one) (replicate 4294967294 f_zero) 2 2147483647 =
     Inl SignedOverflow"
  by (rule kernel_fails_at_1_1)
    (simp_all add: cell_update_def lin_def imul_def iadd_def isub_def is_boundary_def load_def
      in_int_iff)

lemma stencil_4x4: "stencil 4 4
        [f_one, f_one, f_one, f_one,
         f_zero, f_zero, f_zero, f_zero,
         f_zero, f_zero, f_zero, f_zero,
         f_zero, f_zero, f_zero, f_zero] =
        [f_one, f_one, f_one, f_one,
         f_zero, f_quarter, f_quarter, f_zero,
         f_zero, f_zero, f_zero, f_zero,
         f_zero, f_zero, f_zero, f_zero]"
  by (simp add: stencil_def stencil_at_def stencil_cell_def float_eval upt_conv_Cons)

text \<open>
  C8. The grid of 4 rows and 4 columns with 1.0 on row 0 and 0.0 elsewhere: one call of
  the kernel, into any output buffer of 16 cells, gives 0.25 at cells \<open>(1, 1)\<close> and
  \<open>(1, 2)\<close> and leaves rows 0 and 3 and columns 0 and 3 as they were. Both grids are
  written row by row.
\<close>

theorem scenario_4x4:
  "length out = 16 \<Longrightarrow>
   jacobi2d_hls
        [f_one, f_one, f_one, f_one,
         f_zero, f_zero, f_zero, f_zero,
         f_zero, f_zero, f_zero, f_zero,
         f_zero, f_zero, f_zero, f_zero]
        out 4 4 =
      Inr
        [f_one, f_one, f_one, f_one,
         f_zero, f_quarter, f_quarter, f_zero,
         f_zero, f_zero, f_zero, f_zero,
         f_zero, f_zero, f_zero, f_zero]"
  by (subst jacobi2d_hls_ok) (simp_all add: stencil_4x4)

theorem scenario_4x4_witness:
  "jacobi2d_hls
        [f_one, f_one, f_one, f_one,
         f_zero, f_zero, f_zero, f_zero,
         f_zero, f_zero, f_zero, f_zero,
         f_zero, f_zero, f_zero, f_zero]
        (replicate 16 f_quarter) 4 4 =
      Inr
        [f_one, f_one, f_one, f_one,
         f_zero, f_quarter, f_quarter, f_zero,
         f_zero, f_zero, f_zero, f_zero,
         f_zero, f_zero, f_zero, f_zero]"
  using scenario_4x4 [of "replicate 16 f_quarter"] by simp

text \<open>
  C9. With \<open>N \<le> 0\<close> or \<open>M \<le> 0\<close> a call of the kernel writes nothing: it returns the
  output buffer as it was, whatever the two buffers are, and fails in no way.
\<close>

theorem nonpositive_dims_noop:
  "N \<le> 0 \<or> M \<le> 0 \<Longrightarrow> jacobi2d_hls inp out N M = Inr out"
proof (cases "M \<le> 0")
  case True
  then show ?thesis by (simp add: jacobi2d_hls_def Row_Loop_no_columns)
next
  case False
  assume "N \<le> 0 \<or> M \<le> 0"
  with False have "N \<le> 0" by simp
  then show ?thesis by (subst jacobi2d_hls_def, subst Row_Loop.simps) simp
qed

theorem nonpositive_dims_noop_witness:
  "jacobi2d_hls [f_one] [f_quarter, f_one] 0 5 = Inr [f_quarter, f_one] \<and>
   jacobi2d_hls [f_one] [f_quarter, f_one] 3 (- 2) = Inr [f_quarter, f_one]"
  using nonpositive_dims_noop [of 0 5 "[f_one]" "[f_quarter, f_one]"]
    nonpositive_dims_noop [of 3 "- 2" "[f_one]" "[f_quarter, f_one]"]
  by simp

section \<open>The testbench runs the stencil update \<open>T\<close> times\<close>

lemma init_loop_ok:
  assumes "0 \<le> j" "j \<le> M" "M \<le> int (length a)"
  shows "\<exists>a'. init_loop a M j = Inr a' \<and> length a' = length a \<and>
           (\<forall>k. a' ! k = (if j \<le> int k \<and> int k < M then f_one else a ! k))"
  using assms
proof (induction a M j rule: init_loop.induct)
  case (1 a M j)
  show ?case
  proof (cases "j < M")
    case False
    then show ?thesis by (subst init_loop.simps) auto
  next
    case True
    let ?a1 = "a[nat j := f_one]"
    have st: "store a j f_one = Inr ?a1"
      using True "1.prems" by (simp add: store_def)
    have "\<exists>a'. init_loop ?a1 M (j + 1) = Inr a' \<and> length a' = length ?a1 \<and>
           (\<forall>k. a' ! k = (if j + 1 \<le> int k \<and> int k < M then f_one else ?a1 ! k))"
      using True "1.prems" by (intro "1.IH" [OF True st]) simp_all
    then obtain a' where o: "init_loop ?a1 M (j + 1) = Inr a'" "length a' = length a"
      "\<And>k. a' ! k = (if j + 1 \<le> int k \<and> int k < M then f_one else ?a1 ! k)"
      by auto
    have "nat j < length a" using True "1.prems" by (simp add: nat_less_iff)
    have "a' ! k = (if j \<le> int k \<and> int k < M then f_one else a ! k)" for k
    proof (cases "k = nat j")
      case True
      then show ?thesis using o(3) [of k] \<open>nat j < length a\<close> \<open>j < M\<close> "1.prems"(1) by simp
    next
      case False
      then have "int k \<noteq> j" using "1.prems"(1) by linarith
      then show ?thesis using o(3) [of k] False by auto
    qed
    then show ?thesis
      using o(1,2) True st by (subst init_loop.simps) simp
  qed
qed

lemma initial_grid_length:
  assumes "1 \<le> N" "1 \<le> M"
  shows "length (initial_grid N M) = nat (N * M)"
proof -
  have "0 \<le> (N - 1) * M" using assms by simp
  then have "nat M + nat ((N - 1) * M) = nat (M + (N - 1) * M)"
    using assms by (simp add: nat_add_distrib)
  also have "M + (N - 1) * M = N * M" by (simp add: algebra_simps)
  finally show ?thesis by (simp add: initial_grid_def)
qed

lemma init_grid_ok:
  assumes "1 \<le> N" "1 \<le> M" "length a = nat (N * M)"
  shows "init_grid a N M = Inr (initial_grid N M)"
proof -
  have "M * 1 \<le> M * N" using assms by (intro mult_left_mono) simp_all
  then have le: "M \<le> N * M" by (simp add: mult.commute)
  then have "M \<le> int (length (replicate (length a) f_zero))" using assms by simp
  from init_loop_ok [OF _ _ this, of 0]
  obtain a' where o: "init_loop (replicate (length a) f_zero) M 0 = Inr a'"
    "length a' = length a"
    "\<And>k. a' ! k = (if int k < M then f_one else replicate (length a) f_zero ! k)"
    using assms by auto
  have "a' = initial_grid N M"
  proof (rule nth_equalityI)
    show "length a' = length (initial_grid N M)"
      using o(2) assms by (simp add: initial_grid_length)
    fix k assume k: "k < length a'"
    show "a' ! k = initial_grid N M ! k"
    proof (cases "int k < M")
      case True
      then have "k < nat M" by simp
      then show ?thesis using o(3) [of k] True by (simp add: initial_grid_def nth_append)
    next
      case False
      then have "\<not> k < nat M" by simp
      moreover have "k - nat M < nat ((N - 1) * M)"
        using k o(2) assms initial_grid_length [OF assms(1,2)] False
        by (simp add: initial_grid_def)
      ultimately show ?thesis
        using o(3) [of k] False k o(2) by (simp add: initial_grid_def nth_append)
    qed
  qed
  then show ?thesis using o(1) by (simp add: init_grid_def)
qed

lemma iter_loop_ok:
  assumes "1 \<le> N" "1 \<le> M" "N * M \<le> 2147483648"
    and "length a = nat (N * M)" "length b = nat (N * M)" "t \<le> iters"
  shows "\<exists>b'. iter_loop a b N M iters t = Inr ((stencil N M ^^ nat (iters - t)) a, b')"
  using assms
proof (induction a b N M iters t rule: iter_loop.induct)
  case (1 a b N M iters t)
  show ?case
  proof (cases "t < iters")
    case False
    then show ?thesis using "1.prems" by (subst iter_loop.simps) simp
  next
    case True
    have k: "jacobi2d_hls a b N M = Inr (stencil N M a)"
      using "1.prems" by (intro jacobi2d_hls_ok) simp_all
    have "\<exists>b'. iter_loop (stencil N M a) a N M iters (t + 1) =
            Inr ((stencil N M ^^ nat (iters - (t + 1))) (stencil N M a), b')"
      using "1.prems" True by (intro "1.IH" [OF True k]) simp_all
    moreover have "nat (iters - t) = Suc (nat (iters - (t + 1)))"
      using True by simp
    ultimately show ?thesis
      using True k by (subst iter_loop.simps) (simp add: funpow_swap1)
  qed
qed

lemma sum_loop_ok:
  assumes "in_int (N * M)" "length a = nat (N * M)" "0 \<le> i" "i \<le> N * M"
  shows "sum_loop a N M acc i = Inr (foldl (\<lambda>s x. dadd s (to_double x)) acc (drop (nat i) a))"
  using assms
proof (induction a N M acc i rule: sum_loop.induct)
  case (1 a N M acc i)
  have nm: "imul N M = Inr (N * M)" using "1.prems" by (simp add: imul_def)
  show ?case
  proof (cases "i < N * M")
    case False
    then have "length a \<le> nat i" using "1.prems" by simp
    then show ?thesis using False nm by (subst sum_loop.simps) simp
  next
    case True
    then have lt: "nat i < length a" using "1.prems" by simp
    then have ld: "load a i = Inr (a ! nat i)" using "1.prems" by (simp add: load_def)
    have "sum_loop a N M (dadd acc (to_double (a ! nat i))) (i + 1) =
            Inr (foldl (\<lambda>s x. dadd s (to_double x)) (dadd acc (to_double (a ! nat i)))
                   (drop (nat (i + 1)) a))"
      using "1.prems" True by (intro "1.IH" [OF nm True ld]) simp_all
    moreover have "drop (nat i) a = a ! nat i # drop (nat (i + 1)) a"
      using lt "1.prems"(3) by (simp add: Cons_nth_drop_Suc nat_add_distrib)
    ultimately show ?thesis
      using True nm ld by (subst sum_loop.simps) simp
  qed
qed

lemma funpow_stencil_length:
  "length g = nat (N * M) \<Longrightarrow> length ((stencil N M ^^ n) g) = nat (N * M)"
  by (induction n) simp_all

lemma grid_after_length:
  assumes "1 \<le> N" "1 \<le> M"
  shows "length (grid_after N M T) = nat (N * M)"
  using assms by (simp add: grid_after_def funpow_stencil_length initial_grid_length)

lemma run_ok:
  assumes "1 \<le> N" "1 \<le> M" "N * M \<le> 2147483647" "0 \<le> T"
  shows "run N M T = Inr (report N M T (checksum (grid_after N M T)))"
proof -
  have nm: "0 \<le> N * M" using assms by simp
  then have "in_int (N * M)" using assms(3) by (simp add: in_int_iff)
  note nm = nm this
  let ?z = "replicate (nat (N * M)) f_zero"
  let ?g = "initial_grid N M"
  have 1: "imul N M = Inr (N * M)" using nm by (simp add: imul_def)
  have 2: "new_vector (N * M) = Inr ?z" using nm by (simp add: new_vector_def)
  have 3: "init_grid ?z N M = Inr ?g" using assms by (intro init_grid_ok) simp_all
  have "length ?g = nat (N * M)" using assms by (simp add: initial_grid_length)
  then obtain b' where 4: "iter_loop ?g ?g N M T 0 = Inr (grid_after N M T, b')"
    using iter_loop_ok [of N M ?g ?g 0 T] assms by (auto simp add: grid_after_def)
  have 5: "sum_loop (grid_after N M T) N M d_zero 0 = Inr (checksum (grid_after N M T))"
    using sum_loop_ok [of N M "grid_after N M T" 0 d_zero] nm assms
    by (simp add: grid_after_length checksum_def)
  show ?thesis by (simp add: run_def 1 2 3 4 5)
qed

section \<open>What the testbench prints\<close>

lemma digit_char_digit: "d < 10 \<Longrightarrow> digit_char d \<in> set ''0123456789''"
  unfolding digit_char_def by (rule nth_mem) simp

lemma show_nat_digits: "set (show_nat n) \<subseteq> set ''0123456789''"
proof (induction n rule: show_nat.induct)
  case (1 n)
  show ?case
  proof (cases "n < 10")
    case True
    then show ?thesis using digit_char_digit [of n] by (subst show_nat.simps) simp
  next
    case False
    have "digit_char (n mod 10) \<in> set ''0123456789''" by (rule digit_char_digit) simp
    then show ?thesis using False "1.IH" by (subst show_nat.simps) simp
  qed
qed

lemma show_nat_no_newline: "CHR 0x0A \<notin> set (show_nat n)"
  using show_nat_digits [of n] by auto

lemma show_int_no_newline: "CHR 0x0A \<notin> set (show_int i)"
  by (simp add: show_int_def show_nat_no_newline)

lemma pad6_no_newline: "CHR 0x0A \<notin> set (pad6 n)"
proof -
  have "digit_char (n div 10 ^ p mod 10) \<in> set ''0123456789''" for p
    by (rule digit_char_digit) simp
  then have "set (pad6 n) \<subseteq> set ''0123456789''"
    unfolding pad6_def by (simp only: set_map image_subset_iff) blast
  then show ?thesis by auto
qed

lemma fmt_f6_no_newline: "CHR 0x0A \<notin> set (fmt_f6 x)"
  by (cases x) (simp_all add: fmt_f6_def show_nat_no_newline pad6_no_newline)

lemma show_nat_numeral:
  "show_nat (numeral k) =
     (if (numeral k :: nat) < 10 then [digit_char (numeral k)]
      else show_nat (numeral k div 10) @ [digit_char (numeral k mod 10)])"
  by (rule show_nat.simps)

lemma show_int_small: "show_int 2 = ''2''" "show_int 3 = ''3''"
  by (simp_all add: show_int_def show_nat_numeral digit_char_def)

lemma grid_after_3_3_2:
  "grid_after 3 3 2 =
     [f_one, f_one, f_one,
      f_zero, f_quarter, f_zero,
      f_zero, f_zero, f_zero]"
proof -
  have 0: "initial_grid 3 3 = [f_one, f_one, f_one, f_zero, f_zero, f_zero, f_zero, f_zero, f_zero]"
    by (simp add: initial_grid_def numeral_eq_Suc)
  have 1: "stencil 3 3 [f_one, f_one, f_one, f_zero, f_zero, f_zero, f_zero, f_zero, f_zero] =
      [f_one, f_one, f_one, f_zero, f_quarter, f_zero, f_zero, f_zero, f_zero]"
    by (simp add: stencil_def stencil_at_def stencil_cell_def float_eval upt_conv_Cons)
  have 2: "stencil 3 3 [f_one, f_one, f_one, f_zero, f_quarter, f_zero, f_zero, f_zero, f_zero] =
      [f_one, f_one, f_one, f_zero, f_quarter, f_zero, f_zero, f_zero, f_zero]"
    by (simp add: stencil_def stencil_at_def stencil_cell_def float_eval upt_conv_Cons)
  show ?thesis by (simp add: grid_after_def 0 1 2 numeral_2_eq_2)
qed

lemma checksum_3_3_2:
  "checksum [f_one, f_one, f_one, f_zero, f_quarter, f_zero, f_zero, f_zero, f_zero] =
     Finite False 7318349394477056 (- 51)"
  by (simp add: checksum_def fp_eval)

lemma fmt_3_25: "fmt_f6 (Finite False 7318349394477056 (- 51)) = ''3.250000''"
proof -
  have m: "micro 7318349394477056 (- 51) = 3250000" by (simp add: micro_def rne_div_def Let_def)
  have p: "pad6 250000 = ''250000''" by (simp add: pad6_def digit_char_def)
  have s: "show_nat 3 = ''3''" by (simp add: show_nat_numeral digit_char_def)
  show ?thesis by (simp add: fmt_f6_def m p s)
qed

lemma atoi_eval:
  "atoi ''4'' = Inr 4" "atoi ''5'' = Inr 5" "atoi ''6'' = Inr 6"
  by (simp_all add: atoi_def isspace_def isdigit_def digit_val_def Let_def in_int_iff)

section \<open>Properties of the testbench\<close>

text \<open>
  C3, as amended. For \<open>N, M \<ge> 1\<close> with \<open>N * M \<le> 2^31 - 1\<close> (the product is computed
  in \<open>int\<close>) and \<open>T \<ge> 0\<close>, the driver prints exactly one line,
  \<open>HLS csim done: N=<N> M=<M> iters=<T> checksum=<S>\<close>, where \<open>S\<close> is the sum of all
  cells, with six decimals, of the grid \<open>grid_after N M T\<close>: the grid with 1.0 on row 0
  and 0.0 elsewhere after \<open>T\<close> stencil updates, each from the result of the one before.
\<close>

theorem driver_output:
  assumes "1 \<le> N" "1 \<le> M" "N * M \<le> 2147483647" "0 \<le> T"
  shows "\<exists>body. run N M T = Inr (body @ [CHR 0x0A]) \<and> CHR 0x0A \<notin> set body \<and>
           body = ''HLS csim done: N='' @ show_int N @ '' M='' @ show_int M @ '' iters='' @
                  show_int T @ '' checksum='' @ fmt_f6 (checksum (grid_after N M T))"
  using assms
  by (simp add: run_ok report_def show_int_no_newline fmt_f6_no_newline)

theorem driver_output_witness:
  "run 3 3 2 = Inr (''HLS csim done: N=3 M=3 iters=2 checksum=3.250000'' @ [CHR 0x0A])"
  using driver_output [of 3 3 2]
  by (simp add: show_int_small grid_after_3_3_2 checksum_3_3_2 fmt_3_25)

text \<open>
  C3 as stated fails: for \<open>N = M = 65536\<close> the size \<open>N*M\<close> of the buffers overflows \<open>int\<close>
  before anything is allocated, and no line is printed.
\<close>

theorem driver_output_overflow: "run 65536 65536 1 = Inl SignedOverflow"
  by (simp add: run_def imul_def in_int_iff)

text \<open>
  C6. \<open>argv\<close> holds the program name and the positional arguments. With fewer than 2
  arguments the driver runs with \<open>N = M = 1024\<close> and \<open>iters = 10\<close> (so a single argument is
  ignored); with exactly 2 it takes \<open>N\<close> and \<open>M\<close> from them and \<open>iters = 10\<close>; with 3 or
  more it takes all three from the first three.
\<close>

theorem argument_defaults:
  "(length argv < 3 \<longrightarrow> main argv = run 1024 1024 10) \<and>
   (length argv = 3 \<longrightarrow> atoi (argv ! 1) = Inr n \<longrightarrow> atoi (argv ! 2) = Inr m \<longrightarrow>
      main argv = run n m 10) \<and>
   (4 \<le> length argv \<longrightarrow> atoi (argv ! 1) = Inr n \<longrightarrow> atoi (argv ! 2) = Inr m \<longrightarrow>
      atoi (argv ! 3) = Inr t \<longrightarrow> main argv = run n m t)"
  by (simp add: main_def parse_args_def)

theorem argument_defaults_witness:
  "main [''tb''] = run 1024 1024 10 \<and>
   main [''tb'', ''7''] = run 1024 1024 10 \<and>
   main [''tb'', ''4'', ''5''] = run 4 5 10 \<and>
   main [''tb'', ''4'', ''5'', ''6''] = run 4 5 6"
  using argument_defaults [of "[''tb'']"] argument_defaults [of "[''tb'', ''7'']"]
    argument_defaults [of "[''tb'', ''4'', ''5'']" 4 5]
    argument_defaults [of "[''tb'', ''4'', ''5'', ''6'']" 4 5 6]
  by (simp add: atoi_eval)

text \<open>
  C10, as amended. The model fails with \<open>OutOfBounds\<close> at any access outside a buffer and
  with \<open>SignedOverflow\<close> at any index that leaves \<open>int\<close>. For \<open>N, M \<ge> 1\<close> with
  \<open>N * M \<le> 2^31\<close> and buffers of \<open>N * M\<close> cells, the kernel and \<open>init_grid\<close> run without
  either. \<open>N \<ge> 1\<close> is needed: with \<open>N \<le> 0\<close> and \<open>M \<ge> 1\<close> the buffer is empty and
  \<open>init_grid\<close> writes outside it.
\<close>

theorem accesses_in_bounds:
  assumes "1 \<le> M" "length inp = nat (N * M)" "length out = nat (N * M)"
    and "length a = nat (N * M)"
  shows "(1 \<le> N \<and> N * M \<le> 2147483648 \<longrightarrow>
            (\<exists>out'. jacobi2d_hls inp out N M = Inr out') \<and> (\<exists>a'. init_grid a N M = Inr a')) \<and>
         (N \<le> 0 \<longrightarrow> init_grid a N M = Inl OutOfBounds)"
proof (intro conjI impI)
  assume "1 \<le> N \<and> N * M \<le> 2147483648"
  then show "\<exists>out'. jacobi2d_hls inp out N M = Inr out'"
    using assms by (simp add: jacobi2d_hls_ok)
next
  assume "1 \<le> N \<and> N * M \<le> 2147483648"
  then show "\<exists>a'. init_grid a N M = Inr a'"
    using assms by (simp add: init_grid_ok)
next
  assume "N \<le> 0"
  then have "N * M \<le> 0" using assms(1) by (simp add: mult_le_0_iff)
  then have "a = []" using assms(4) by simp
  then show "init_grid a N M = Inl OutOfBounds"
    using assms(1) by (simp add: init_grid_def init_loop.simps [of "[]" M 0] store_def)
qed

theorem accesses_in_bounds_witness:
  "(\<exists>out'. jacobi2d_hls (replicate 6 f_one) (replicate 6 f_zero) 2 3 = Inr out') \<and>
   (\<exists>a'. init_grid (replicate 6 f_quarter) 2 3 = Inr a') \<and>
   init_grid [] 0 3 = Inl OutOfBounds"
  using accesses_in_bounds [of 3 "replicate 6 f_one" 2 "replicate 6 f_zero" "replicate 6 f_quarter"]
    accesses_in_bounds [of 3 "[]" 0 "[]" "[]"]
  by simp

text \<open>
  C10 as stated fails: for \<open>N = 3\<close>, \<open>M = 2^31 - 1\<close> the index \<open>i*M + j\<close> of cell
  \<open>(1, 1)\<close> is \<open>2^31\<close>, outside \<open>int\<close>.
\<close>

theorem accesses_overflow:
  "jacobi2d_hls (replicate 6442450941 f_one) (replicate 6442450941 f_zero) 3 2147483647 =
     Inl SignedOverflow"
  by (rule kernel_fails_at_1_1)
    (simp_all add: cell_update_def lin_def imul_def iadd_def isub_def is_boundary_def load_def
      in_int_iff)

section \<open>Rounding\<close>

lemma bitlen_pos: "0 < m \<Longrightarrow> bitlen m = Suc (bitlen (m div 2))"
  by (subst bitlen.simps) simp

lemma bitlen_eq: "2 ^ n \<le> m \<Longrightarrow> m < 2 ^ Suc n \<Longrightarrow> bitlen m = Suc n"
proof (induction n arbitrary: m)
  case 0
  then have "m = 1" by simp
  then show ?case by simp
next
  case (Suc n)
  have "2 ^ n \<le> m div 2" "m div 2 < 2 ^ Suc n" using Suc.prems by simp_all
  then have "bitlen (m div 2) = Suc n" by (rule Suc.IH)
  moreover have "0 < m" using Suc.prems(1) by (metis gr0I not_less_eq_eq power_eq_0_iff zero_neq_numeral le_zero_eq)
  ultimately show ?case by (simp add: bitlen_pos)
qed

lemma bitlen_le: "m < 2 ^ n \<Longrightarrow> bitlen m \<le> n"
proof (induction n arbitrary: m)
  case 0
  then show ?case by simp
next
  case (Suc n)
  show ?case
  proof (cases "m = 0")
    case True
    then show ?thesis by simp
  next
    case False
    have "m div 2 < 2 ^ n" using Suc.prems by simp
    then have "bitlen (m div 2) \<le> n" by (rule Suc.IH)
    then show ?thesis using False by (simp add: bitlen_pos)
  qed
qed

lemma bitlen_shift: "0 < m \<Longrightarrow> bitlen (m * 2 ^ k) = bitlen m + k"
proof (induction k)
  case 0
  then show ?case by simp
next
  case (Suc k)
  have "bitlen (m * 2 ^ Suc k) = Suc (bitlen (m * 2 ^ Suc k div 2))"
    using Suc.prems by (intro bitlen_pos) simp
  then show ?case using Suc by simp
qed

lemma rne_div_exact: "0 < d \<Longrightarrow> rne_div (q * d) d = q"
  by (simp add: rne_div_def)

lemma rne_div_eq:
  assumes "n = q * d + r" "r < d"
  shows "rne_div n d = (if d < 2 * r \<or> (2 * r = d \<and> odd q) then q + 1 else q)"
  using assms by (simp add: rne_div_def)

lemma rne_div_3_2_4: "rne_div (2 * rne_div (3 * m) 2 + m) 4 = m"
proof -
  define a where "a = m div 4"
  define r where "r = m mod 4"
  have m: "m = 4 * a + r" and r: "r < 4" by (simp_all add: a_def r_def)
  from r have "r = 0 \<or> r = 1 \<or> r = 2 \<or> r = 3" by linarith
  then show ?thesis
  proof (elim disjE)
    assume "r = 0"
    then have m: "m = 4 * a" using m by simp
    have 1: "rne_div (12 * a) 2 = 6 * a"
      by (simp add: rne_div_eq [of _ "6 * a" 2 0])
    have 2: "rne_div (16 * a) 4 = 4 * a"
      by (simp add: rne_div_eq [of _ "4 * a" 4 0])
    have 3: "3 * m = 12 * a" using m by simp
    have 4: "2 * (6 * a) + m = 16 * a" using m by simp
    have "rne_div (2 * rne_div (3 * m) 2 + m) 4 = rne_div (2 * (6 * a) + m) 4"
      by (simp only: 3 1)
    also have "\<dots> = 4 * a" by (simp only: 4 2)
    also have "\<dots> = m" using m by simp
    finally show ?thesis .
  next
    assume "r = 1"
    then have m: "m = 4 * a + 1" using m by simp
    have 1: "rne_div (12 * a + 3) 2 = 6 * a + 2"
      by (simp add: rne_div_eq [of _ "6 * a + 1" 2 1])
    have 2: "rne_div (16 * a + 5) 4 = 4 * a + 1"
      by (simp add: rne_div_eq [of _ "4 * a + 1" 4 1])
    have 3: "3 * m = 12 * a + 3" using m by simp
    have 4: "2 * (6 * a + 2) + m = 16 * a + 5" using m by simp
    have "rne_div (2 * rne_div (3 * m) 2 + m) 4 = rne_div (2 * (6 * a + 2) + m) 4"
      by (simp only: 3 1)
    also have "\<dots> = 4 * a + 1" by (simp only: 4 2)
    also have "\<dots> = m" using m by simp
    finally show ?thesis .
  next
    assume "r = 2"
    then have m: "m = 4 * a + 2" using m by simp
    have 1: "rne_div (12 * a + 6) 2 = 6 * a + 3"
      by (simp add: rne_div_eq [of _ "6 * a + 3" 2 0])
    have 2: "rne_div (16 * a + 8) 4 = 4 * a + 2"
      by (simp add: rne_div_eq [of _ "4 * a + 2" 4 0])
    have 3: "3 * m = 12 * a + 6" using m by simp
    have 4: "2 * (6 * a + 3) + m = 16 * a + 8" using m by simp
    have "rne_div (2 * rne_div (3 * m) 2 + m) 4 = rne_div (2 * (6 * a + 3) + m) 4"
      by (simp only: 3 1)
    also have "\<dots> = 4 * a + 2" by (simp only: 4 2)
    also have "\<dots> = m" using m by simp
    finally show ?thesis .
  next
    assume "r = 3"
    then have m: "m = 4 * a + 3" using m by simp
    have 1: "rne_div (12 * a + 9) 2 = 6 * a + 4"
      by (simp add: rne_div_eq [of _ "6 * a + 4" 2 1])
    have 2: "rne_div (16 * a + 11) 4 = 4 * a + 3"
      by (simp add: rne_div_eq [of _ "4 * a + 2" 4 3])
    have 3: "3 * m = 12 * a + 9" using m by simp
    have 4: "2 * (6 * a + 4) + m = 16 * a + 11" using m by simp
    have "rne_div (2 * rne_div (3 * m) 2 + m) 4 = rne_div (2 * (6 * a + 4) + m) 4"
      by (simp only: 3 1)
    also have "\<dots> = 4 * a + 3" by (simp only: 4 2)
    also have "\<dots> = m" using m by simp
    finally show ?thesis .
  qed
qed

lemma rne_div_3_4_4: "rne_div (4 * rne_div (3 * m) 4 + m) 4 = m"
proof -
  define a where "a = m div 8"
  define r where "r = m mod 8"
  have m: "m = 8 * a + r" and r: "r < 8" by (simp_all add: a_def r_def)
  from r have "r = 0 \<or> r = 1 \<or> r = 2 \<or> r = 3 \<or> r = 4 \<or> r = 5 \<or> r = 6 \<or> r = 7" by linarith
  then show ?thesis
  proof (elim disjE)
    assume "r = 0"
    then have m: "m = 8 * a" using m by simp
    have 1: "rne_div (24 * a) 4 = 6 * a"
      by (simp add: rne_div_eq [of _ "6 * a" 4 0])
    have 2: "rne_div (32 * a) 4 = 8 * a"
      by (simp add: rne_div_eq [of _ "8 * a" 4 0])
    have 3: "3 * m = 24 * a" using m by simp
    have 4: "4 * (6 * a) + m = 32 * a" using m by simp
    have "rne_div (4 * rne_div (3 * m) 4 + m) 4 = rne_div (4 * (6 * a) + m) 4"
      by (simp only: 3 1)
    also have "\<dots> = 8 * a" by (simp only: 4 2)
    also have "\<dots> = m" using m by simp
    finally show ?thesis .
  next
    assume "r = 1"
    then have m: "m = 8 * a + 1" using m by simp
    have 1: "rne_div (24 * a + 3) 4 = 6 * a + 1"
      by (simp add: rne_div_eq [of _ "6 * a" 4 3])
    have 2: "rne_div (32 * a + 5) 4 = 8 * a + 1"
      by (simp add: rne_div_eq [of _ "8 * a + 1" 4 1])
    have 3: "3 * m = 24 * a + 3" using m by simp
    have 4: "4 * (6 * a + 1) + m = 32 * a + 5" using m by simp
    have "rne_div (4 * rne_div (3 * m) 4 + m) 4 = rne_div (4 * (6 * a + 1) + m) 4"
      by (simp only: 3 1)
    also have "\<dots> = 8 * a + 1" by (simp only: 4 2)
    also have "\<dots> = m" using m by simp
    finally show ?thesis .
  next
    assume "r = 2"
    then have m: "m = 8 * a + 2" using m by simp
    have 1: "rne_div (24 * a + 6) 4 = 6 * a + 2"
      by (simp add: rne_div_eq [of _ "6 * a + 1" 4 2])
    have 2: "rne_div (32 * a + 10) 4 = 8 * a + 2"
      by (simp add: rne_div_eq [of _ "8 * a + 2" 4 2])
    have 3: "3 * m = 24 * a + 6" using m by simp
    have 4: "4 * (6 * a + 2) + m = 32 * a + 10" using m by simp
    have "rne_div (4 * rne_div (3 * m) 4 + m) 4 = rne_div (4 * (6 * a + 2) + m) 4"
      by (simp only: 3 1)
    also have "\<dots> = 8 * a + 2" by (simp only: 4 2)
    also have "\<dots> = m" using m by simp
    finally show ?thesis .
  next
    assume "r = 3"
    then have m: "m = 8 * a + 3" using m by simp
    have 1: "rne_div (24 * a + 9) 4 = 6 * a + 2"
      by (simp add: rne_div_eq [of _ "6 * a + 2" 4 1])
    have 2: "rne_div (32 * a + 11) 4 = 8 * a + 3"
      by (simp add: rne_div_eq [of _ "8 * a + 2" 4 3])
    have 3: "3 * m = 24 * a + 9" using m by simp
    have 4: "4 * (6 * a + 2) + m = 32 * a + 11" using m by simp
    have "rne_div (4 * rne_div (3 * m) 4 + m) 4 = rne_div (4 * (6 * a + 2) + m) 4"
      by (simp only: 3 1)
    also have "\<dots> = 8 * a + 3" by (simp only: 4 2)
    also have "\<dots> = m" using m by simp
    finally show ?thesis .
  next
    assume "r = 4"
    then have m: "m = 8 * a + 4" using m by simp
    have 1: "rne_div (24 * a + 12) 4 = 6 * a + 3"
      by (simp add: rne_div_eq [of _ "6 * a + 3" 4 0])
    have 2: "rne_div (32 * a + 16) 4 = 8 * a + 4"
      by (simp add: rne_div_eq [of _ "8 * a + 4" 4 0])
    have 3: "3 * m = 24 * a + 12" using m by simp
    have 4: "4 * (6 * a + 3) + m = 32 * a + 16" using m by simp
    have "rne_div (4 * rne_div (3 * m) 4 + m) 4 = rne_div (4 * (6 * a + 3) + m) 4"
      by (simp only: 3 1)
    also have "\<dots> = 8 * a + 4" by (simp only: 4 2)
    also have "\<dots> = m" using m by simp
    finally show ?thesis .
  next
    assume "r = 5"
    then have m: "m = 8 * a + 5" using m by simp
    have 1: "rne_div (24 * a + 15) 4 = 6 * a + 4"
      by (simp add: rne_div_eq [of _ "6 * a + 3" 4 3])
    have 2: "rne_div (32 * a + 21) 4 = 8 * a + 5"
      by (simp add: rne_div_eq [of _ "8 * a + 5" 4 1])
    have 3: "3 * m = 24 * a + 15" using m by simp
    have 4: "4 * (6 * a + 4) + m = 32 * a + 21" using m by simp
    have "rne_div (4 * rne_div (3 * m) 4 + m) 4 = rne_div (4 * (6 * a + 4) + m) 4"
      by (simp only: 3 1)
    also have "\<dots> = 8 * a + 5" by (simp only: 4 2)
    also have "\<dots> = m" using m by simp
    finally show ?thesis .
  next
    assume "r = 6"
    then have m: "m = 8 * a + 6" using m by simp
    have 1: "rne_div (24 * a + 18) 4 = 6 * a + 4"
      by (simp add: rne_div_eq [of _ "6 * a + 4" 4 2])
    have 2: "rne_div (32 * a + 22) 4 = 8 * a + 6"
      by (simp add: rne_div_eq [of _ "8 * a + 5" 4 2])
    have 3: "3 * m = 24 * a + 18" using m by simp
    have 4: "4 * (6 * a + 4) + m = 32 * a + 22" using m by simp
    have "rne_div (4 * rne_div (3 * m) 4 + m) 4 = rne_div (4 * (6 * a + 4) + m) 4"
      by (simp only: 3 1)
    also have "\<dots> = 8 * a + 6" by (simp only: 4 2)
    also have "\<dots> = m" using m by simp
    finally show ?thesis .
  next
    assume "r = 7"
    then have m: "m = 8 * a + 7" using m by simp
    have 1: "rne_div (24 * a + 21) 4 = 6 * a + 5"
      by (simp add: rne_div_eq [of _ "6 * a + 5" 4 1])
    have 2: "rne_div (32 * a + 27) 4 = 8 * a + 7"
      by (simp add: rne_div_eq [of _ "8 * a + 6" 4 3])
    have 3: "3 * m = 24 * a + 21" using m by simp
    have 4: "4 * (6 * a + 5) + m = 32 * a + 27" using m by simp
    have "rne_div (4 * rne_div (3 * m) 4 + m) 4 = rne_div (4 * (6 * a + 5) + m) 4"
      by (simp only: 3 1)
    also have "\<dots> = 8 * a + 7" by (simp only: 4 2)
    also have "\<dots> = m" using m by simp
    finally show ?thesis .
  qed
qed

lemma rne_div_3_2_2: "rne_div (2 * rne_div (3 * m) 2 + m) 2 = 2 * m"
proof -
  define a where "a = m div 4"
  define r where "r = m mod 4"
  have m: "m = 4 * a + r" and r: "r < 4" by (simp_all add: a_def r_def)
  from r have "r = 0 \<or> r = 1 \<or> r = 2 \<or> r = 3" by linarith
  then show ?thesis
  proof (elim disjE)
    assume "r = 0"
    then have m: "m = 4 * a" using m by simp
    have 1: "rne_div (12 * a) 2 = 6 * a"
      by (simp add: rne_div_eq [of _ "6 * a" 2 0])
    have 2: "rne_div (16 * a) 2 = 8 * a"
      by (simp add: rne_div_eq [of _ "8 * a" 2 0])
    have 3: "3 * m = 12 * a" using m by simp
    have 4: "2 * (6 * a) + m = 16 * a" using m by simp
    have "rne_div (2 * rne_div (3 * m) 2 + m) 2 = rne_div (2 * (6 * a) + m) 2"
      by (simp only: 3 1)
    also have "\<dots> = 8 * a" by (simp only: 4 2)
    also have "\<dots> = 2 * m" using m by simp
    finally show ?thesis .
  next
    assume "r = 1"
    then have m: "m = 4 * a + 1" using m by simp
    have 1: "rne_div (12 * a + 3) 2 = 6 * a + 2"
      by (simp add: rne_div_eq [of _ "6 * a + 1" 2 1])
    have 2: "rne_div (16 * a + 5) 2 = 8 * a + 2"
      by (simp add: rne_div_eq [of _ "8 * a + 2" 2 1])
    have 3: "3 * m = 12 * a + 3" using m by simp
    have 4: "2 * (6 * a + 2) + m = 16 * a + 5" using m by simp
    have "rne_div (2 * rne_div (3 * m) 2 + m) 2 = rne_div (2 * (6 * a + 2) + m) 2"
      by (simp only: 3 1)
    also have "\<dots> = 8 * a + 2" by (simp only: 4 2)
    also have "\<dots> = 2 * m" using m by simp
    finally show ?thesis .
  next
    assume "r = 2"
    then have m: "m = 4 * a + 2" using m by simp
    have 1: "rne_div (12 * a + 6) 2 = 6 * a + 3"
      by (simp add: rne_div_eq [of _ "6 * a + 3" 2 0])
    have 2: "rne_div (16 * a + 8) 2 = 8 * a + 4"
      by (simp add: rne_div_eq [of _ "8 * a + 4" 2 0])
    have 3: "3 * m = 12 * a + 6" using m by simp
    have 4: "2 * (6 * a + 3) + m = 16 * a + 8" using m by simp
    have "rne_div (2 * rne_div (3 * m) 2 + m) 2 = rne_div (2 * (6 * a + 3) + m) 2"
      by (simp only: 3 1)
    also have "\<dots> = 8 * a + 4" by (simp only: 4 2)
    also have "\<dots> = 2 * m" using m by simp
    finally show ?thesis .
  next
    assume "r = 3"
    then have m: "m = 4 * a + 3" using m by simp
    have 1: "rne_div (12 * a + 9) 2 = 6 * a + 4"
      by (simp add: rne_div_eq [of _ "6 * a + 4" 2 1])
    have 2: "rne_div (16 * a + 11) 2 = 8 * a + 6"
      by (simp add: rne_div_eq [of _ "8 * a + 5" 2 1])
    have 3: "3 * m = 12 * a + 9" using m by simp
    have 4: "2 * (6 * a + 4) + m = 16 * a + 11" using m by simp
    have "rne_div (2 * rne_div (3 * m) 2 + m) 2 = rne_div (2 * (6 * a + 4) + m) 2"
      by (simp only: 3 1)
    also have "\<dots> = 8 * a + 6" by (simp only: 4 2)
    also have "\<dots> = 2 * m" using m by simp
    finally show ?thesis .
  qed
qed

lemma rne_div_bounds:
  assumes "0 < d"
  shows "2 * n \<le> 2 * d * rne_div n d + d" "2 * d * rne_div n d \<le> 2 * n + d"
proof -
  define q where "q = n div d"
  define r where "r = n mod d"
  have n: "n = q * d + r" and r: "r < d" using assms by (simp_all add: q_def r_def)
  have e: "rne_div n d = (if d < 2 * r \<or> (2 * r = d \<and> odd q) then q + 1 else q)"
    using n r by (rule rne_div_eq)
  have "2 * (q * d + r) \<le> 2 * d * (if d < 2 * r \<or> (2 * r = d \<and> odd q) then q + 1 else q) + d"
    using r by (auto simp add: algebra_simps)
  then show "2 * n \<le> 2 * d * rne_div n d + d"
    by (simp only: e flip: n)
  have "2 * d * (if d < 2 * r \<or> (2 * r = d \<and> odd q) then q + 1 else q) \<le> 2 * (q * d + r) + d"
    using r by (auto simp add: algebra_simps)
  then show "2 * d * rne_div n d \<le> 2 * n + d"
    by (simp only: e flip: n)
qed

section \<open>The results of the operations are values of the format\<close>

lemma bitlen_upper: "m < 2 ^ bitlen m"
proof (induction m rule: bitlen.induct)
  case (1 n)
  show ?case
  proof (cases "n = 0")
    case True
    then show ?thesis by simp
  next
    case False
    then have "n div 2 < 2 ^ bitlen (n div 2)" by (rule "1.IH")
    then have "n < 2 * 2 ^ bitlen (n div 2)" by linarith
    then show ?thesis using False by (simp add: bitlen_pos)
  qed
qed

lemma bitlen_lower: "0 < m \<Longrightarrow> 2 ^ (bitlen m - 1) \<le> m"
proof (induction m rule: bitlen.induct)
  case (1 n)
  show ?case
  proof (cases "n div 2 = 0")
    case True
    then have "n = 1" using "1.prems" by (simp add: div_eq_0_iff) 
    then show ?thesis by simp
  next
    case False
    then have "2 ^ (bitlen (n div 2) - 1) \<le> n div 2" using "1.IH" "1.prems" by simp
    moreover have "0 < bitlen (n div 2)" using False by (simp add: bitlen_pos)
    ultimately have "2 ^ bitlen (n div 2) \<le> 2 * (n div 2)"
      by (cases "bitlen (n div 2)") simp_all
    then have "2 ^ bitlen (n div 2) \<le> n" by linarith
    then show ?thesis using "1.prems" by (simp add: bitlen_pos)
  qed
qed

lemma rne_div_le: "0 < d \<Longrightarrow> n < k * d \<Longrightarrow> rne_div n d \<le> k"
proof -
  assume "0 < d" "n < k * d"
  then have "n div d < k" by (simp add: less_mult_imp_div_less)
  then show ?thesis by (simp add: rne_div_def Let_def)
qed

lemma rne_div_ge: "0 < d \<Longrightarrow> k * d \<le> n \<Longrightarrow> k \<le> rne_div n d"
proof -
  assume "0 < d" "k * d \<le> n"
  then have "k \<le> n div d" by (simp add: less_eq_div_iff_mult_less_eq)
  then show ?thesis by (simp add: rne_div_def Let_def)
qed

lemma mk_valid:
  assumes "emin f \<le> e" "m < 2 ^ prec f" "emin f < e \<longrightarrow> 2 ^ (prec f - 1) \<le> m"
  shows "valid f (mk f s m e)"
  using assms by (simp add: mk_def valid_def)

lemma fp_round_valid:
  assumes "0 < prec f" "emin f \<le> emax f"
  shows "valid f (fp_round f s m e)"
proof (cases "m = 0")
  case True
  then show ?thesis using assms by (simp add: fp_round_def valid_def)
next
  case False
  then have m0: "0 < m" by simp
  define sh where "sh = max (int (bitlen m) - int (prec f)) (emin f - e)"
  have sh: "int (bitlen m) - int (prec f) \<le> sh" "emin f - e \<le> sh"
    "emin f - e < sh \<longrightarrow> sh = int (bitlen m) - int (prec f)"
    by (auto simp add: sh_def)
  have b0: "0 < bitlen m" using m0 by (simp add: bitlen_pos)
  show ?thesis
  proof (cases "sh \<le> 0")
    case True
    let ?k = "nat (- sh)"
    have r: "fp_round f s m e = mk f s (m * 2 ^ ?k) (e + sh)"
      using False True by (simp add: fp_round_def Let_def flip: sh_def)
    have "bitlen m + ?k \<le> prec f" using sh(1) True by linarith
    then have "(2::nat) ^ (bitlen m + ?k) \<le> 2 ^ prec f" by (intro power_increasing) simp_all
    then have "(2::nat) ^ bitlen m * 2 ^ ?k \<le> 2 ^ prec f" by (simp only: power_add)
    moreover have "m * 2 ^ ?k < 2 ^ bitlen m * 2 ^ ?k" using bitlen_upper [of m] by simp
    ultimately have 1: "m * 2 ^ ?k < 2 ^ prec f" by (rule less_le_trans [rotated])
    have 2: "2 ^ (prec f - 1) \<le> m * 2 ^ ?k" if "emin f < e + sh"
    proof -
      have "sh = int (bitlen m) - int (prec f)" using that sh(3) by simp
      then have "prec f - 1 = (bitlen m - 1) + ?k" using True b0 by linarith
      then have "(2::nat) ^ (prec f - 1) = 2 ^ (bitlen m - 1) * 2 ^ ?k" by (simp add: power_add)
      also have "\<dots> \<le> m * 2 ^ ?k" using bitlen_lower [OF m0] by simp
      finally show ?thesis .
    qed
    show ?thesis unfolding r using sh(2) 1 2 by (intro mk_valid) simp_all
  next
    case False
    let ?k = "nat sh"
    let ?q = "rne_div m (2 ^ ?k)"
    have r: "fp_round f s m e =
        (if ?q = 2 ^ prec f then mk f s (2 ^ (prec f - 1)) (e + sh + 1) else mk f s ?q (e + sh))"
      using \<open>m \<noteq> 0\<close> False by (simp add: fp_round_def Let_def flip: sh_def)
    have "bitlen m \<le> prec f + ?k" using sh(1) False by linarith
    then have "(2::nat) ^ bitlen m \<le> 2 ^ (prec f + ?k)" by (intro power_increasing) simp_all
    then have "m < 2 ^ prec f * 2 ^ ?k" using bitlen_upper [of m] by (simp add: power_add)
    then have le: "?q \<le> 2 ^ prec f" by (intro rne_div_le) simp_all
    have ge: "2 ^ (prec f - 1) \<le> ?q" if "emin f < e + sh"
    proof -
      have "sh = int (bitlen m) - int (prec f)" using that sh(3) by simp
      then have "bitlen m - 1 = (prec f - 1) + ?k" using False assms(1) by linarith
      then have "(2::nat) ^ (prec f - 1) * 2 ^ ?k = 2 ^ (bitlen m - 1)" by (simp add: power_add)
      also have "\<dots> \<le> m" using bitlen_lower [OF m0] .
      finally show ?thesis by (intro rne_div_ge) simp_all
    qed
    show ?thesis
    proof (cases "?q = 2 ^ prec f")
      case True
      have "valid f (mk f s (2 ^ (prec f - 1)) (e + sh + 1))"
        using sh(2) assms(1) by (intro mk_valid) simp_all
      then show ?thesis using True r by simp
    next
      case False
      then have "?q < 2 ^ prec f" using le by simp
      then have "valid f (mk f s ?q (e + sh))"
        using sh(2) ge by (intro mk_valid) simp_all
      then show ?thesis using False r by simp
    qed
  qed
qed

lemma fp_add_valid:
  assumes "0 < prec f" "emin f \<le> emax f"
  shows "valid f (fp_add f x y)"
proof -
  have z: "valid f (Finite s 0 (emin f))" for s using assms by (simp add: valid_def)
  show ?thesis
    by (cases x; cases y)
      (simp_all add: fp_add_def Let_def fp_round_valid [OF assms] z, simp_all add: valid_def)
qed

lemma fp_mul_valid:
  assumes "0 < prec f" "emin f \<le> emax f"
  shows "valid f (fp_mul f x y)"
  by (cases x; cases y) (simp_all add: fp_mul_def fp_round_valid [OF assms], simp_all add: valid_def)

lemma float_ops_valid:
  "valid binary32 (fadd x y)" "valid binary32 (fmul x y)" "valid binary64 (dadd x y)"
  "valid binary64 (to_double x)"
proof -
  have 32: "0 < prec binary32" "emin binary32 \<le> emax binary32"
    and 64: "0 < prec binary64" "emin binary64 \<le> emax binary64"
    by (simp_all add: binary32_def binary64_def)
  show "valid binary32 (fadd x y)" unfolding fadd_def using 32 by (rule fp_add_valid)
  show "valid binary32 (fmul x y)" unfolding fmul_def using 32 by (rule fp_mul_valid)
  show "valid binary64 (dadd x y)" unfolding dadd_def using 64 by (rule fp_add_valid)
  show "valid binary64 (to_double x)"
    by (cases x) (simp_all add: to_double_def fp_round_valid [OF 64], simp_all add: valid_def)
qed

section \<open>A quarter of the fourfold sum\<close>

lemma valid32:
  "valid binary32 (Finite s m e) \<longleftrightarrow>
     - 149 \<le> e \<and> e \<le> 104 \<and> m < 16777216 \<and> (- 149 < e \<longrightarrow> 8388608 \<le> m)"
  by (simp add: valid_def binary32_def)

lemma fp_round32_exact:
  assumes "valid binary32 (Finite s m e)" "0 < m"
  shows "fp_round binary32 s (m * 2 ^ k) (e - int k) = Finite s m e"
proof -
  from assms(1) have v: "- 149 \<le> e" "e \<le> 104" "m < 16777216" "- 149 < e \<longrightarrow> 8388608 \<le> m"
    by (simp_all add: valid32)
  have "m < 2 ^ 24" using v(3) by simp
  then have le: "bitlen m \<le> 24" by (rule bitlen_le)
  have "max (int (bitlen m) - 24) (- 149 - e) = 0"
  proof (cases "- 149 < e")
    case True
    then have "2 ^ 23 \<le> m" "m < 2 ^ Suc 23" using v by simp_all
    then have "bitlen m = Suc 23" by (rule bitlen_eq)
    then show ?thesis using True by simp
  next
    case False
    then show ?thesis using v(1) le by simp
  qed
  then have sh: "max (int (bitlen (m * 2 ^ k)) - 24) (- 149 - (e - int k)) = int k"
    using assms(2) by (simp add: bitlen_shift max_def split: if_splits)
  show ?thesis
  proof (cases "k = 0")
    case True
    then show ?thesis
      using sh assms(2) v by (simp add: fp_round_def binary32_def mk_def)
  next
    case False
    have "rne_div (m * 2 ^ k) (2 ^ k) = m" by (rule rne_div_exact) simp
    then show ?thesis
      using sh assms(2) v False by (simp add: fp_round_def binary32_def mk_def Let_def)
  qed
qed

lemma fp_round32_shift:
  assumes "0 < M" "int (bitlen M) - 24 \<le> int k" "- 149 - E \<le> int k"
    and "int (bitlen M) - 24 = int k \<or> - 149 - E = int k"
    and "0 < k" "rne_div M (2 ^ k) < 16777216" "E + int k \<le> 104"
  shows "fp_round binary32 s M E = Finite s (rne_div M (2 ^ k)) (E + int k)"
proof -
  have "max (int (bitlen M) - 24) (- 149 - E) = int k"
    using assms(2,3,4) by (auto simp add: max_def)
  then show ?thesis
    using assms by (simp add: fp_round_def binary32_def mk_def Let_def)
qed

lemma signed_nonzero:
  "0 < n \<Longrightarrow> signed s n \<noteq> 0 \<and> (signed s n < 0) = s \<and> nat \<bar>signed s n\<bar> = n"
  by (simp add: signed_def)

lemma fadd_same_sign:
  assumes "0 < m1" "0 < m2" "e2 \<le> e1"
  shows "fadd (Finite s m1 e1) (Finite s m2 e2) =
           fp_round binary32 s (m1 * 2 ^ nat (e1 - e2) + m2) e2"
proof -
  let ?n = "m1 * 2 ^ nat (e1 - e2) + m2"
  have "signed s m1 * 2 ^ nat (e1 - e2) + signed s m2 = signed s ?n"
    by (simp add: signed_def)
  moreover have "0 < ?n" using assms(2) by simp
  note signed_nonzero [OF this, of s]
  moreover have "min e1 e2 = e2" using assms(3) by simp
  ultimately show ?thesis
    using assms(1,2) by (simp add: fadd_def fp_add_def Let_def)
qed

lemma fmul_quarter:
  "fmul f_quarter (Finite s m e) = fp_round binary32 s (m * 2 ^ 23) (e - 23 - int 2)"
  by (simp add: fmul_def fp_mul_def f_quarter_def mult.commute)

lemma quarter_exact:
  assumes "valid binary32 (Finite s m e)" "0 < m"
  shows "fmul f_quarter (Finite s (m * 2 ^ k) (e + 2 - int k)) = Finite s m e"
proof -
  have a: "m * 2 ^ k * 2 ^ 23 = m * 2 ^ (k + 23)" by (simp add: power_add)
  have b: "e + 2 - int k - 23 - int 2 = e - int (k + 23)" by simp
  have "fmul f_quarter (Finite s (m * 2 ^ k) (e + 2 - int k)) =
          fp_round binary32 s (m * 2 ^ k * 2 ^ 23) (e + 2 - int k - 23 - int 2)"
    by (rule fmul_quarter)
  also have "\<dots> = fp_round binary32 s (m * 2 ^ (k + 23)) (e - int (k + 23))"
    by (simp only: a b)
  also have "\<dots> = Finite s m e" using assms by (rule fp_round32_exact)
  finally show ?thesis .
qed

lemma sum4_normal:
  assumes "8388608 \<le> m" "m < 16777216" "- 149 \<le> e" "e \<le> 102"
  shows "fadd (fadd (fadd (Finite s m e) (Finite s m e)) (Finite s m e)) (Finite s m e) =
           Finite s m (e + 2)"
proof -
  let ?c = "Finite s m e"
  have m0: "0 < m" using assms(1) by simp
  have "fadd ?c ?c = fp_round binary32 s (m * 2 ^ nat (e - e) + m) e"
    using m0 by (intro fadd_same_sign) simp_all
  also have "m * 2 ^ nat (e - e) + m = m * 2 ^ 1" by simp
  also have "fp_round binary32 s (m * 2 ^ 1) e = fp_round binary32 s (m * 2 ^ 1) (e + 1 - int 1)"
    by simp
  also have "\<dots> = Finite s m (e + 1)"
    using assms m0 by (intro fp_round32_exact) (simp_all add: valid32)
  finally have s1: "fadd ?c ?c = Finite s m (e + 1)" .
  have s2: "fadd (Finite s m (e + 1)) ?c = fp_round binary32 s (3 * m) e"
    using m0 by (simp add: fadd_same_sign)
  show ?thesis
  proof (cases "3 * m < 33554432")
    case True
    let ?q = "rne_div (3 * m) 2"
    have q: "3 * m \<le> 2 * ?q + 1" "2 * ?q \<le> 3 * m + 1"
      using rne_div_bounds [of 2 "3 * m"] by simp_all
    have "2 ^ 24 \<le> 3 * m" "3 * m < 2 ^ Suc 24" using assms(1) True by simp_all
    then have b: "bitlen (3 * m) = Suc 24" by (rule bitlen_eq)
    have "3 * m \<noteq> 33554431" by presburger
    then have "?q < 16777216" using q True by linarith
    then have "fp_round binary32 s (3 * m) e = Finite s (rne_div (3 * m) (2 ^ 1)) (e + int 1)"
      using b assms m0 by (intro fp_round32_shift) simp_all
    then have s2': "fadd (Finite s m (e + 1)) ?c = Finite s ?q (e + 1)"
      using s2 by simp
    have q0: "0 < ?q" using q(1) m0 by linarith
    have s3: "fadd (Finite s ?q (e + 1)) ?c = fp_round binary32 s (2 * ?q + m) e"
      using q0 m0 by (simp add: fadd_same_sign mult.commute)
    have "2 ^ 25 \<le> 2 * ?q + m"
    proof (cases "m = 8388608")
      case True
      then show ?thesis by (simp add: rne_div_def)
    next
      case False
      then show ?thesis using q(1) assms(1) by simp
    qed
    moreover have "2 * ?q + m < 2 ^ Suc 25" using q(2) assms(2) by simp
    ultimately have b3: "bitlen (2 * ?q + m) = Suc 25" by (rule bitlen_eq)
    have "fp_round binary32 s (2 * ?q + m) e =
            Finite s (rne_div (2 * ?q + m) (2 ^ 2)) (e + int 2)"
      using b3 assms q0 by (intro fp_round32_shift) (simp_all add: rne_div_3_2_4)
    then show ?thesis by (simp add: s1 s2' s3 rne_div_3_2_4)
  next
    case False
    let ?q = "rne_div (3 * m) 4"
    have q: "3 * m \<le> 4 * ?q + 2" "4 * ?q \<le> 3 * m + 2"
      using rne_div_bounds [of 4 "3 * m"] by simp_all
    have "2 ^ 25 \<le> 3 * m" "3 * m < 2 ^ Suc 25" using assms(2) False by simp_all
    then have b: "bitlen (3 * m) = Suc 25" by (rule bitlen_eq)
    have "?q < 16777216" using q assms(2) by linarith
    then have "fp_round binary32 s (3 * m) e = Finite s (rne_div (3 * m) (2 ^ 2)) (e + int 2)"
      using b assms m0 by (intro fp_round32_shift) simp_all
    then have s2': "fadd (Finite s m (e + 1)) ?c = Finite s ?q (e + 2)"
      using s2 by simp
    have q0: "0 < ?q" using q(1) False by linarith
    have s3: "fadd (Finite s ?q (e + 2)) ?c = fp_round binary32 s (4 * ?q + m) e"
      using q0 m0 by (simp add: fadd_same_sign mult.commute)
    have "2 ^ 25 \<le> 4 * ?q + m" "4 * ?q + m < 2 ^ Suc 25"
      using q assms(2) False by simp_all
    then have b3: "bitlen (4 * ?q + m) = Suc 25" by (rule bitlen_eq)
    have "fp_round binary32 s (4 * ?q + m) e =
            Finite s (rne_div (4 * ?q + m) (2 ^ 2)) (e + int 2)"
      using b3 assms q0 by (intro fp_round32_shift) (simp_all add: rne_div_3_4_4)
    then show ?thesis by (simp add: s1 s2' s3 rne_div_3_4_4)
  qed
qed

lemma sum4_subnormal:
  assumes "0 < m" "m < 8388608"
  shows "fadd (fadd (fadd (Finite s m (- 149)) (Finite s m (- 149))) (Finite s m (- 149)))
              (Finite s m (- 149)) =
           (if 4 * m < 16777216 then Finite s (4 * m) (- 149) else Finite s (2 * m) (- 148))"
proof -
  let ?c = "Finite s m (- 149)"
  have "fadd ?c ?c = fp_round binary32 s (m * 2 ^ nat (- 149 - (- 149)) + m) (- 149)"
    using assms by (intro fadd_same_sign) simp_all
  also have "m * 2 ^ nat (- 149 - (- 149)) + m = 2 * m * 2 ^ 0" by simp
  also have "fp_round binary32 s (2 * m * 2 ^ 0) (- 149) =
      fp_round binary32 s (2 * m * 2 ^ 0) (- 149 - int 0)"
    by simp
  also have "\<dots> = Finite s (2 * m) (- 149)"
    using assms by (intro fp_round32_exact) (simp_all add: valid32)
  finally have s1: "fadd ?c ?c = Finite s (2 * m) (- 149)" .
  have s2: "fadd (Finite s (2 * m) (- 149)) ?c = fp_round binary32 s (3 * m) (- 149)"
    using assms by (simp add: fadd_same_sign)
  show ?thesis
  proof (cases "3 * m < 16777216")
    case True
    have "fp_round binary32 s (3 * m * 2 ^ 0) (- 149 - int 0) = Finite s (3 * m) (- 149)"
      using assms True by (intro fp_round32_exact) (simp_all add: valid32)
    then have s2': "fadd (Finite s (2 * m) (- 149)) ?c = Finite s (3 * m) (- 149)"
      using s2 by simp
    have s3: "fadd (Finite s (3 * m) (- 149)) ?c = fp_round binary32 s (4 * m) (- 149)"
      using assms by (simp add: fadd_same_sign)
    show ?thesis
    proof (cases "4 * m < 16777216")
      case True
      have "fp_round binary32 s (4 * m * 2 ^ 0) (- 149 - int 0) = Finite s (4 * m) (- 149)"
        using assms True by (intro fp_round32_exact) (simp_all add: valid32)
      then show ?thesis using True by (simp add: s1 s2' s3)
    next
      case False
      have "fp_round binary32 s (2 * m * 2 ^ 1) (- 148 - int 1) = Finite s (2 * m) (- 148)"
        using assms False by (intro fp_round32_exact) (simp_all add: valid32)
      then show ?thesis using False by (simp add: s1 s2' s3)
    qed
  next
    case False
    let ?q = "rne_div (3 * m) 2"
    have q: "3 * m \<le> 2 * ?q + 1" "2 * ?q \<le> 3 * m + 1"
      using rne_div_bounds [of 2 "3 * m"] by simp_all
    have "2 ^ 24 \<le> 3 * m" "3 * m < 2 ^ Suc 24" using assms(2) False by simp_all
    then have b: "bitlen (3 * m) = Suc 24" by (rule bitlen_eq)
    have "?q < 16777216" using q assms(2) by linarith
    then have "fp_round binary32 s (3 * m) (- 149) =
                 Finite s (rne_div (3 * m) (2 ^ 1)) (- 149 + int 1)"
      using b assms by (intro fp_round32_shift) simp_all
    then have s2': "fadd (Finite s (2 * m) (- 149)) ?c = Finite s ?q (- 148)"
      using s2 by simp
    have q0: "0 < ?q" using q(1) assms(1) by linarith
    have s3: "fadd (Finite s ?q (- 148)) ?c = fp_round binary32 s (2 * ?q + m) (- 149)"
      using q0 assms by (simp add: fadd_same_sign mult.commute)
    have "2 ^ 24 \<le> 2 * ?q + m" "2 * ?q + m < 2 ^ Suc 24"
      using q assms(2) False by simp_all
    then have b3: "bitlen (2 * ?q + m) = Suc 24" by (rule bitlen_eq)
    have "fp_round binary32 s (2 * ?q + m) (- 149) =
            Finite s (rne_div (2 * ?q + m) (2 ^ 1)) (- 149 + int 1)"
      using b3 assms q0 by (intro fp_round32_shift) (simp_all add: rne_div_3_2_2)
    moreover have "\<not> 4 * m < 16777216" using False by simp
    ultimately show ?thesis by (simp add: s1 s2' s3 rne_div_3_2_2)
  qed
qed

lemma quarter_sum4:
  assumes "valid binary32 (Finite s m e)" "e \<le> 102"
  shows "fmul f_quarter
           (fadd (fadd (fadd (Finite s m e) (Finite s m e)) (Finite s m e)) (Finite s m e)) =
         Finite s m e"
proof -
  from assms(1) have v: "- 149 \<le> e" "m < 16777216" "- 149 < e \<longrightarrow> 8388608 \<le> m"
    by (simp_all add: valid32)
  consider "m = 0" | "8388608 \<le> m" | "0 < m" "m < 8388608" by linarith
  then show ?thesis
  proof cases
    case 1
    then have "e = - 149" using v by auto
    then show ?thesis
      using 1 by (simp add: fadd_def fp_add_def fmul_def fp_mul_def f_quarter_def fp_round_def
          binary32_def)
  next
    case 2
    have "fmul f_quarter (Finite s (m * 2 ^ 0) (e + 2 - int 0)) = Finite s m e"
      using assms(1) 2 by (intro quarter_exact) simp_all
    then show ?thesis using 2 v assms(2) by (simp add: sum4_normal)
  next
    case 3
    then have e: "e = - 149" using v by auto
    have "fmul f_quarter (Finite s (m * 2 ^ 2) (e + 2 - int 2)) = Finite s m e"
      "fmul f_quarter (Finite s (m * 2 ^ 1) (e + 2 - int 1)) = Finite s m e"
      using assms(1) 3 by (intro quarter_exact; simp)+
    then show ?thesis using 3 e by (simp add: sum4_subnormal mult.commute)
  qed
qed

section \<open>The kernel does not read the output buffer\<close>

lemma lin_Inr: "lin a M b = Inr x \<Longrightarrow> x = a * M + b"
  by (auto simp add: lin_def imul_def iadd_def ck_def bnd_def split: if_splits)

lemma bnd_shape:
  assumes "\<And>x. (\<exists>e. \<forall>out. k x out = Inl e) \<or> (\<exists>v. \<forall>out. k x out = store out a v)"
  shows "(\<exists>e. \<forall>out. bnd m (\<lambda>x. k x out) = Inl e) \<or>
         (\<exists>v. \<forall>out. bnd m (\<lambda>x. k x out) = store out a v)"
  using assms by (cases m) simp_all

lemma if_shape:
  assumes "(\<exists>e. \<forall>out. p out = Inl e) \<or> (\<exists>v. \<forall>out. p out = store out a v)"
    and "(\<exists>e. \<forall>out. q out = Inl e) \<or> (\<exists>v. \<forall>out. q out = store out a v)"
  shows "(\<exists>e. \<forall>out. (if b then p out else q out) = Inl e) \<or>
         (\<exists>v. \<forall>out. (if b then p out else q out) = store out a v)"
  using assms by (cases b) simp_all

lemma store_shape:
  "(\<exists>e. \<forall>out. store out a w = Inl e) \<or> (\<exists>v. \<forall>out. store out a w = store out a v)"
  by blast

lemma cell_update_shape:
  "(\<exists>e. \<forall>out. cell_update inp out N M i j = Inl e) \<or>
   (\<exists>v. \<forall>out. cell_update inp out N M i j = store out (i * M + j) v)"
proof (cases "lin i M j")
  case (Inl e)
  then show ?thesis by (simp add: cell_update_def)
next
  case (Inr idx)
  then have idx: "i * M + j = idx" using lin_Inr by simp
  show ?thesis
    unfolding cell_update_def Inr bnd_Inr idx
    by (intro bnd_shape if_shape store_shape)
qed

lemma Col_Loop_two:
  assumes "length o1 = length o2"
  shows "(\<exists>e. Col_Loop inp o1 N M i j = Inl e \<and> Col_Loop inp o2 N M i j = Inl e) \<or>
         (\<exists>r1 r2. Col_Loop inp o1 N M i j = Inr r1 \<and> Col_Loop inp o2 N M i j = Inr r2 \<and>
            length r1 = length o1 \<and> length r2 = length o1 \<and>
            (\<forall>k. if i * M + j \<le> int k \<and> int k < i * M + M then r1 ! k = r2 ! k
                 else r1 ! k = o1 ! k \<and> r2 ! k = o2 ! k))"
  using assms
proof (induction inp o1 N M i j arbitrary: o2 rule: Col_Loop.induct)
  case (1 inp o1 N M i j)
  show ?case
  proof (cases "j < M")
    case False
    then show ?thesis using "1.prems" by (subst (1 2 3 4) Col_Loop.simps) auto
  next
    case True
    let ?a = "i * M + j"
    from cell_update_shape [of inp N M i j] show ?thesis
    proof (elim disjE exE)
      fix e assume "\<forall>out. cell_update inp out N M i j = Inl e"
      then show ?thesis using True by (subst (1 2 3 4) Col_Loop.simps) simp
    next
      fix v assume st: "\<forall>out. cell_update inp out N M i j = store out ?a v"
      show ?thesis
      proof (cases "0 \<le> ?a \<and> ?a < int (length o1)")
        case False
        then have "cell_update inp o1 N M i j = Inl OutOfBounds"
          "cell_update inp o2 N M i j = Inl OutOfBounds"
          using st "1.prems" by (auto simp add: store_def)
        then show ?thesis using True by (subst (1 2 3 4) Col_Loop.simps) simp
      next
        case inb: True
        let ?p1 = "o1[nat ?a := v]" and ?p2 = "o2[nat ?a := v]"
        have c1: "cell_update inp o1 N M i j = Inr ?p1" and c2: "cell_update inp o2 N M i j = Inr ?p2"
          using st inb "1.prems" by (simp_all add: store_def)
        have len: "length ?p1 = length ?p2" using "1.prems" by simp
        have u: "Col_Loop inp o1 N M i j = Col_Loop inp ?p1 N M i (j + 1)"
          "Col_Loop inp o2 N M i j = Col_Loop inp ?p2 N M i (j + 1)"
          using True c1 c2 by (subst Col_Loop.simps, simp)+
        from "1.IH" [OF True c1 len] show ?thesis
        proof (elim disjE exE conjE)
          fix e assume "Col_Loop inp ?p1 N M i (j + 1) = Inl e" "Col_Loop inp ?p2 N M i (j + 1) = Inl e"
          then show ?thesis using u by simp
        next
          fix r1 r2
          assume r: "Col_Loop inp ?p1 N M i (j + 1) = Inr r1" "Col_Loop inp ?p2 N M i (j + 1) = Inr r2"
            "length r1 = length ?p1" "length r2 = length ?p1"
            "\<forall>k. if i * M + (j + 1) \<le> int k \<and> int k < i * M + M then r1 ! k = r2 ! k
                 else r1 ! k = ?p1 ! k \<and> r2 ! k = ?p2 ! k"
          have "if ?a \<le> int k \<and> int k < i * M + M then r1 ! k = r2 ! k
                 else r1 ! k = o1 ! k \<and> r2 ! k = o2 ! k" for k
          proof (cases "k = nat ?a")
            case True
            have "nat ?a < length o1" "nat ?a < length o2"
              using inb "1.prems" by (simp_all add: nat_less_iff)
            then show ?thesis using r(5) [rule_format, of k] True inb \<open>j < M\<close> by simp
          next
            case False
            then have "int k \<noteq> ?a" using inb by linarith
            then show ?thesis using r(5) [rule_format, of k] False by (auto split: if_splits)
          qed
          then show ?thesis using u r by simp
        qed
      qed
    qed
  qed
qed

lemma Row_Loop_two:
  assumes "length o1 = length o2" "0 < M" "i \<le> N"
  shows "(\<exists>e. Row_Loop inp o1 N M i = Inl e \<and> Row_Loop inp o2 N M i = Inl e) \<or>
         (\<exists>r1 r2. Row_Loop inp o1 N M i = Inr r1 \<and> Row_Loop inp o2 N M i = Inr r2 \<and>
            length r1 = length o1 \<and> length r2 = length o1 \<and>
            (\<forall>k. if i * M \<le> int k \<and> int k < N * M then r1 ! k = r2 ! k
                 else r1 ! k = o1 ! k \<and> r2 ! k = o2 ! k))"
  using assms
proof (induction inp o1 N M i arbitrary: o2 rule: Row_Loop.induct)
  case (1 inp o1 N M i)
  show ?case
  proof (cases "i < N")
    case False
    then have "i = N" using "1.prems" by simp
    then show ?thesis using "1.prems" by (subst (1 2 3 4) Row_Loop.simps) auto
  next
    case True
    from Col_Loop_two [OF "1.prems"(1), of inp N M i 0] show ?thesis
    proof (elim disjE exE conjE)
      fix e assume "Col_Loop inp o1 N M i 0 = Inl e" "Col_Loop inp o2 N M i 0 = Inl e"
      then show ?thesis using True by (subst (1 2 3 4) Row_Loop.simps) simp
    next
      fix c1 c2
      assume c: "Col_Loop inp o1 N M i 0 = Inr c1" "Col_Loop inp o2 N M i 0 = Inr c2"
        "length c1 = length o1" "length c2 = length o1"
        "\<forall>k. if i * M + 0 \<le> int k \<and> int k < i * M + M then c1 ! k = c2 ! k
             else c1 ! k = o1 ! k \<and> c2 ! k = o2 ! k"
      have u: "Row_Loop inp o1 N M i = Row_Loop inp c1 N M (i + 1)"
        "Row_Loop inp o2 N M i = Row_Loop inp c2 N M (i + 1)"
        using True c(1,2) by (subst Row_Loop.simps, simp)+
      have len: "length c1 = length c2" using c(3,4) by simp
      have le: "(i + 1) * M \<le> N * M"
        using True "1.prems"(2) by (intro mult_right_mono) simp_all
      have "i + 1 \<le> N" using True by simp
      from "1.IH" [OF True c(1) len "1.prems"(2) this] show ?thesis
      proof (elim disjE exE conjE)
        fix e assume "Row_Loop inp c1 N M (i + 1) = Inl e" "Row_Loop inp c2 N M (i + 1) = Inl e"
        then show ?thesis using u by simp
      next
        fix r1 r2
        assume r: "Row_Loop inp c1 N M (i + 1) = Inr r1" "Row_Loop inp c2 N M (i + 1) = Inr r2"
          "length r1 = length c1" "length r2 = length c1"
          "\<forall>k. if (i + 1) * M \<le> int k \<and> int k < N * M then r1 ! k = r2 ! k
               else r1 ! k = c1 ! k \<and> r2 ! k = c2 ! k"
        have "if i * M \<le> int k \<and> int k < N * M then r1 ! k = r2 ! k
               else r1 ! k = o1 ! k \<and> r2 ! k = o2 ! k" for k
          using r(5) [rule_format, of k] c(5) [rule_format, of k] le "1.prems"(2)
          by (auto simp add: algebra_simps split: if_splits)
        then show ?thesis using u r c(3,4) by simp
      qed
    qed
  qed
qed

lemma jacobi2d_hls_two:
  assumes "1 \<le> N" "1 \<le> M" "length out1 = nat (N * M)" "length out2 = nat (N * M)"
  shows "jacobi2d_hls inp out1 N M = jacobi2d_hls inp out2 N M"
proof -
  have len: "length out1 = length out2" using assms by simp
  have "0 < M" "0 \<le> N" using assms by simp_all
  from Row_Loop_two [OF len this, of inp] show ?thesis
  proof (elim disjE exE conjE)
    fix e assume "Row_Loop inp out1 N M 0 = Inl e" "Row_Loop inp out2 N M 0 = Inl e"
    then show ?thesis by (simp add: jacobi2d_hls_def)
  next
    fix r1 r2
    assume r: "Row_Loop inp out1 N M 0 = Inr r1" "Row_Loop inp out2 N M 0 = Inr r2"
      "length r1 = length out1" "length r2 = length out1"
      "\<forall>k. if 0 * M \<le> int k \<and> int k < N * M then r1 ! k = r2 ! k
           else r1 ! k = out1 ! k \<and> r2 ! k = out2 ! k"
    have "r1 = r2"
    proof (rule nth_equalityI)
      show "length r1 = length r2" using r(3,4) by simp
      fix k assume "k < length r1"
      then have "int k < N * M" using r(3) assms(3) by simp
      then show "r1 ! k = r2 ! k" using r(5) [rule_format, of k] by simp
    qed
    then show ?thesis using r(1,2) by (simp add: jacobi2d_hls_def)
  qed
qed

section \<open>Constant grids\<close>

lemma quarter_sum4_all:
  assumes "valid binary32 c" "no_overflow4 c"
  shows "fmul f_quarter (fadd (fadd (fadd c c) c) c) = c"
proof (cases c)
  case (Finite s m e)
  then show ?thesis using assms by (simp add: quarter_sum4 no_overflow4_def)
next
  case (Infinity s)
  then show ?thesis by (simp add: fp_eval)
next
  case NaN
  then show ?thesis using assms by (simp add: no_overflow4_def)
qed

lemma stencil_constant:
  assumes "1 \<le> N" "1 \<le> M" "fmul f_quarter (fadd (fadd (fadd c c) c) c) = c"
  shows "stencil N M (replicate (nat (N * M)) c) = replicate (nat (N * M)) c"
proof (rule nth_equalityI)
  let ?g = "replicate (nat (N * M)) c"
  show "length (stencil N M ?g) = length ?g" by simp
  fix k assume "k < length (stencil N M ?g)"
  then have k: "int k < N * M" by simp
  let ?i = "int k div M" and ?j = "int k mod M"
  have j: "0 \<le> ?j" "?j < M" using assms by simp_all
  have i: "0 \<le> ?i" using assms by (simp add: pos_imp_zdiv_nonneg_iff)
  have ij: "?i * M + ?j = int k" by simp
  have "?i < N"
  proof (rule ccontr)
    assume "\<not> ?i < N"
    then have "N * M \<le> ?i * M" using assms(2) by (intro mult_right_mono) simp_all
    then show False using k j ij by linarith
  qed
  have at: "0 \<le> a \<Longrightarrow> a < N \<Longrightarrow> 0 \<le> b \<Longrightarrow> b < M \<Longrightarrow> ?g ! nat (a * M + b) = c" for a b
    using cell_index_bounds [of a N b M] by simp
  have "stencil_cell ?g N M ?i ?j = c"
  proof (cases "?i = 0 \<or> ?i = N - 1 \<or> ?j = 0 \<or> ?j = M - 1")
    case True
    then show ?thesis using at [OF i \<open>?i < N\<close> j] by (simp add: stencil_cell_def)
  next
    case False
    then have b: "0 \<le> ?i - 1" "?i - 1 < N" "0 \<le> ?i + 1" "?i + 1 < N"
      "0 \<le> ?j - 1" "?j - 1 < M" "0 \<le> ?j + 1" "?j + 1 < M"
      using i j \<open>?i < N\<close> by linarith+
    have "?g ! nat ((?i - 1) * M + ?j) = c" "?g ! nat ((?i + 1) * M + ?j) = c"
      "?g ! nat (?i * M + (?j - 1)) = c" "?g ! nat (?i * M + (?j + 1)) = c"
      using at [OF b(1,2) j] at [OF b(3,4) j] at [OF i \<open>?i < N\<close> b(5,6)]
        at [OF i \<open>?i < N\<close> b(7,8)] by simp_all
    then show ?thesis using False assms(3) by (simp only: stencil_cell_def if_False)
  qed
  then show "stencil N M ?g ! k = ?g ! k"
    using \<open>k < length (stencil N M ?g)\<close> by (simp add: stencil_def stencil_at_def)
qed

text \<open>
  C5, as amended. For \<open>N, M \<ge> 1\<close> with \<open>N * M \<le> 2^31\<close> and every \<open>float\<close> \<open>c\<close> that is
  an infinity or finite of magnitude below \<open>2^126\<close>: if every cell of the input grid
  is \<open>c\<close>, one call of the kernel returns the grid in which every cell is \<open>c\<close>. The
  interior cells are computed as \<open>0.25f * (((c + c) + c) + c)\<close>, which rounds twice on
  the way and still gives \<open>c\<close>. Nothing is said of a grid of NaN.
\<close>

theorem constant_grid_fixed:
  assumes "1 \<le> N" "1 \<le> M" "N * M \<le> 2147483648" "length out = nat (N * M)"
    and "valid binary32 c" "no_overflow4 c"
  shows "jacobi2d_hls (replicate (nat (N * M)) c) out N M = Inr (replicate (nat (N * M)) c)"
  using assms by (simp add: jacobi2d_hls_ok stencil_constant quarter_sum4_all)

theorem constant_grid_fixed_witness:
  "jacobi2d_hls (replicate 9 (Finite False 11184811 (- 23))) (replicate 9 f_zero) 3 3 =
     Inr (replicate 9 (Finite False 11184811 (- 23)))"
  using constant_grid_fixed [of 3 3 "replicate 9 f_zero" "Finite False 11184811 (- 23)"]
  by (simp add: valid32 no_overflow4_def)

lemma stencil_FLT_MAX:
  "stencil 3 3 (replicate 9 FLT_MAX) =
     [FLT_MAX, FLT_MAX, FLT_MAX,
      FLT_MAX, Infinity False, FLT_MAX,
      FLT_MAX, FLT_MAX, FLT_MAX]"
proof -
  have "fmul f_quarter (fadd (fadd (fadd FLT_MAX FLT_MAX) FLT_MAX) FLT_MAX) = Infinity False"
    by (simp add: fp_eval)
  then show ?thesis
    by (simp add: stencil_def stencil_at_def stencil_cell_def upt_conv_Cons numeral_eq_Suc)
qed

text \<open>
  C5 as stated fails for the constant \<open>FLT_MAX\<close>: \<open>c + c\<close> overflows to infinity, and the
  interior cell of the 3 by 3 grid becomes infinity. It also fails, as every claim about
  the kernel does, on a grid of more than \<open>2^31\<close> cells.
\<close>

theorem constant_grid_overflow:
  "valid binary32 FLT_MAX \<and>
   jacobi2d_hls (replicate 9 FLT_MAX) (replicate 9 f_zero) 3 3 =
     Inr [FLT_MAX, FLT_MAX, FLT_MAX,
          FLT_MAX, Infinity False, FLT_MAX,
          FLT_MAX, FLT_MAX, FLT_MAX] \<and>
   jacobi2d_hls (replicate 5368709120 f_one) (replicate 5368709120 f_zero) 5 1073741824 =
     Inl SignedOverflow"
proof (intro conjI)
  show "valid binary32 FLT_MAX" by (simp add: FLT_MAX_def valid32)
  show "jacobi2d_hls (replicate 9 FLT_MAX) (replicate 9 f_zero) 3 3 =
     Inr [FLT_MAX, FLT_MAX, FLT_MAX, FLT_MAX, Infinity False, FLT_MAX, FLT_MAX, FLT_MAX, FLT_MAX]"
    by (subst jacobi2d_hls_ok) (simp_all add: stencil_FLT_MAX)
  show "jacobi2d_hls (replicate 5368709120 f_one) (replicate 5368709120 f_zero) 5 1073741824 =
     Inl SignedOverflow"
    by (rule kernel_fails_at_1_1)
      (simp_all add: cell_update_def lin_def imul_def iadd_def isub_def is_boundary_def load_def
        in_int_iff)
qed

text \<open>
  C7. Two calls of the kernel on the same input grid and the same \<open>N, M \<ge> 1\<close>, writing
  to two output buffers of \<open>N * M\<close> cells with whatever contents, give the same result:
  the same grid, or the same failure. The result is a function of the input grid and the
  dimensions alone. The line the driver prints is a function of the three numbers read
  from the command line: two command lines that give the same \<open>N\<close>, \<open>M\<close> and \<open>iters\<close>
  give the same output.
\<close>

theorem kernel_deterministic:
  assumes "1 \<le> N" "1 \<le> M" "length out1 = nat (N * M)" "length out2 = nat (N * M)"
  shows "jacobi2d_hls inp out1 N M = jacobi2d_hls inp out2 N M \<and>
         (parse_args argv1 = parse_args argv2 \<longrightarrow> main argv1 = main argv2)"
  using assms by (simp add: jacobi2d_hls_two [of N M out1 out2] main_def)

lemma atoi_eval2:
  "atoi ''3'' = Inr 3" "atoi ''03'' = Inr 3" "atoi ''2'' = Inr 2"
  by (simp_all add: atoi_def isspace_def isdigit_def digit_val_def Let_def in_int_iff)

theorem kernel_deterministic_witness:
  "jacobi2d_hls [f_one, f_zero, f_one, f_quarter] (replicate 4 f_zero) 2 2 =
     jacobi2d_hls [f_one, f_zero, f_one, f_quarter] (replicate 4 f_one) 2 2 \<and>
   main [''tb'', ''3'', ''3'', ''2''] = main [''./tb'', ''3'', ''03'', ''2'', ''x'']"
  using kernel_deterministic [of 2 2 "replicate 4 f_zero" "replicate 4 f_one"
      "[f_one, f_zero, f_one, f_quarter]" "[''tb'', ''3'', ''3'', ''2'']"
      "[''./tb'', ''3'', ''03'', ''2'', ''x'']"]
  by (simp add: parse_args_def atoi_eval2)

end
